theory Spec2Isabelle
  imports Complex_Main "HOL-Library.Sublist"
begin

section \<open>The Gibbs sampler \<open>bsvar\<close> of src/src/bsvar.cpp\<close>

text \<open>
  The development embeds the exported function \<open>bsvar\<close> (bsvar.cpp, lines 87-145): the
  set-up of the progress bar, the allocation of the three history buffers, the loop over
  \<open>s = 0, ..., S - 1\<close> and the packaging of the returned list.

  \<open>bsvar\<close> never computes with a matrix entry, it only copies them, so the entry type
  \<open>'e\<close> is kept abstract (the source has IEEE doubles). The three conditional samplers
  are declared in \<open>sample_ABhyper.h\<close>, which is not among the sources at hand: they are
  parameters of the model.
\<close>

subsection \<open>Armadillo containers\<close>

text \<open>
  \<open>arma::mat\<close>: the two dimensions and the entries in column-major order.
  \<open>arma::vec\<close>: a column, given by its entries (\<open>n_elem\<close> is the length).
  \<open>arma::cube\<close>: the three dimensions and its slices, as the accessor \<open>slice(s)\<close>
  presents them: \<open>n_slices\<close> matrices.
\<close>

record 'e mat =
  n_rows :: nat
  n_cols :: nat
  mem :: "'e list"

type_synonym 'e vec = "'e list"

record 'e cube =
  cube_n_rows :: nat
  cube_n_cols :: nat
  n_slices :: nat
  slices :: "'e mat list"

text \<open>The constructors \<open>mat(r, c)\<close> and \<open>cube(r, c, s)\<close>, zero-filled.\<close>

definition new_mat :: "nat \<Rightarrow> nat \<Rightarrow> ('e::zero) mat" where
  "new_mat r c = \<lparr>n_rows = r, n_cols = c, mem = replicate (r * c) 0\<rparr>"

definition new_cube :: "nat \<Rightarrow> nat \<Rightarrow> nat \<Rightarrow> ('e::zero) cube" where
  "new_cube r c s =
     \<lparr>cube_n_rows = r, cube_n_cols = c, n_slices = s, slices = replicate s (new_mat r c)\<rparr>"

text \<open>
  \<open>Q.slice(s) = M\<close>: a slice of a cube is a matrix of fixed size, so the assignment
  raises unless \<open>M\<close> has the dimensions of the cube (and \<open>s\<close> is a slice of it).
  \<open>None\<close> is the exception.
\<close>

definition slice_assign :: "'e cube \<Rightarrow> nat \<Rightarrow> 'e mat \<Rightarrow> 'e cube option" where
  "slice_assign Q s M =
     (if s < n_slices Q \<and> n_rows M = cube_n_rows Q \<and> n_cols M = cube_n_cols Q
      then Some (Q\<lparr>slices := (slices Q)[s := M]\<rparr>)
      else None)"

text \<open>
  \<open>M.col(j) = v\<close>: the copy into a column view raises unless \<open>v\<close> has \<open>n_rows\<close>
  entries (and \<open>j\<close> is a column of \<open>M\<close>). Column \<open>j\<close> occupies the entries
  \<open>j * n_rows, ..., (j + 1) * n_rows - 1\<close> of the memory.
\<close>

definition col_assign :: "'e mat \<Rightarrow> nat \<Rightarrow> 'e vec \<Rightarrow> 'e mat option" where
  "col_assign M j v =
     (if j < n_cols M \<and> length v = n_rows M
      then Some (M\<lparr>mem := take (j * n_rows M) (mem M) @ v @ drop (Suc j * n_rows M) (mem M)\<rparr>)
      else None)"

definition col :: "'e mat \<Rightarrow> nat \<Rightarrow> 'e vec" where
  "col M j = take (n_rows M) (drop (j * n_rows M) (mem M))"

subsection \<open>Inputs and outputs of \<open>bsvar\<close>\<close>

text \<open>The list \<open>prior\<close> with the eight elements of the documentation (lines 39-49).\<close>

record 'e prior =
  prior_A :: "'e mat"
  A_V_inv :: "'e mat"
  B_V_inv :: "'e mat"
  B_nu :: int
  hyper_nu :: 'e
  hyper_a :: 'e
  hyper_V :: 'e
  hyper_S :: 'e

text \<open>
  The triple \<open>(B, A, hyper)\<close>: the list \<open>starting_values\<close> (lines 50-55) and the list
  \<open>last_draw\<close> of the result (lines 134-138) have the same three elements.
\<close>

record 'e draw =
  draw_B :: "'e mat"
  draw_A :: "'e mat"
  draw_hyper :: "'e vec"

record 'e posterior =
  post_B :: "'e cube"
  post_A :: "'e cube"
  post_hyper :: "'e mat"

record 'e result =
  last_draw :: "'e draw"
  posterior :: "'e posterior"

subsection \<open>The samplers\<close>

text \<open>
  The calls of lines 124-126 pass the running triple and the constant inputs. Following
  sections 4.1-4.3 of the specification each sampler overwrites its first argument and
  only reads the others; it draws from the random number generator of the host, whose
  state \<open>'r\<close> it advances; it may raise (\<open>None\<close>).
\<close>

record ('e, 'r) samplers =
  sample_hyperparameters ::
    "'e vec \<Rightarrow> 'e mat \<Rightarrow> 'e mat \<Rightarrow> 'e mat list \<Rightarrow> 'e prior \<Rightarrow> 'r \<Rightarrow> ('e vec \<times> 'r) option"
  sample_A_homosk1 ::
    "'e mat \<Rightarrow> 'e mat \<Rightarrow> 'e vec \<Rightarrow> 'e mat \<Rightarrow> 'e mat \<Rightarrow> 'e prior \<Rightarrow> 'r \<Rightarrow> ('e mat \<times> 'r) option"
  sample_B_homosk1 ::
    "'e mat \<Rightarrow> 'e mat \<Rightarrow> 'e vec \<Rightarrow> 'e mat \<Rightarrow> 'e mat \<Rightarrow> 'e prior \<Rightarrow> 'e mat list \<Rightarrow> 'r
       \<Rightarrow> ('e mat \<times> 'r) option"

subsection \<open>Errors, observable actions and the state of the loop\<close>

datatype error =
  Interrupted        \<comment> \<open>\<open>checkUserInterrupt\<close> found an interrupt pending and raised\<close>
| Sampler_Failed     \<comment> \<open>one of the three samplers raised\<close>
| Size_Mismatch      \<comment> \<open>a copy into a slice or a column with other dimensions\<close>
| Alloc_Failed       \<comment> \<open>a buffer of a negative number of slices was requested\<close>

text \<open>
  The actions of the loop, each with the iteration index \<open>s\<close> at which it happens, in
  program order. An action is logged when its statement starts.
\<close>

datatype event =
  Increment nat            \<comment> \<open>\<open>p.increment()\<close>, line 120\<close>
| Check_Interrupt nat      \<comment> \<open>\<open>checkUserInterrupt()\<close>, line 122\<close>
| Sample_Hyper nat         \<comment> \<open>line 124\<close>
| Sample_A nat             \<comment> \<open>line 125\<close>
| Sample_B nat             \<comment> \<open>line 126\<close>
| Store_B nat              \<comment> \<open>\<open>posterior_B.slice(s) = aux_B\<close>, line 128\<close>
| Store_A nat              \<comment> \<open>\<open>posterior_A.slice(s) = aux_A\<close>, line 129\<close>
| Store_Hyper nat          \<comment> \<open>\<open>posterior_hyper.col(s) = aux_hyper\<close>, line 130\<close>

record ('e, 'r) state =
  aux_B :: "'e mat"
  aux_A :: "'e mat"
  aux_hyper :: "'e vec"
  posterior_B :: "'e cube"
  posterior_A :: "'e cube"
  posterior_hyper :: "'e mat"
  rng :: 'r
  trace :: "event list"

text \<open>
  A statement either raises, which ends the call with the error (the trace so far is
  kept with it), or continues in a new state.
\<close>

type_synonym ('e, 'r) step = "('e, 'r) state \<Rightarrow> (error \<times> event list) + ('e, 'r) state"

definition seq :: "('e, 'r) step \<Rightarrow> ('e, 'r) step \<Rightarrow> ('e, 'r) step" where
  "seq f g st = (case f st of Inl e \<Rightarrow> Inl e | Inr st' \<Rightarrow> g st')"

definition emit :: "event \<Rightarrow> ('e, 'r) state \<Rightarrow> ('e, 'r) state" where
  "emit ev st = st\<lparr>trace := trace st @ [ev]\<rparr>"

subsection \<open>The progress points (line 97)\<close>

text \<open>
  \<open>arma::linspace(start, stop, num)\<close> computes \<open>delta = (stop - start) / (num - 1)\<close>,
  the entries \<open>start + i * delta\<close> for \<open>i < num - 1\<close> and the last entry \<open>stop\<close>;
  \<open>arma::round\<close> rounds each entry to the nearest integer, halves away from zero.
  The doubles are modelled by rationals. For \<open>start = 0\<close>, \<open>num = 50\<close> and an integer
  \<open>stop = S\<close> the exact entry \<open>i * S / 49\<close> is at least \<open>1 / 98\<close> away from every
  half-integer, far more than the rounding error of the two double operations for a
  32-bit \<open>S\<close>, so the rounded values of the model are those of the source.
\<close>

definition linspace :: "rat \<Rightarrow> rat \<Rightarrow> nat \<Rightarrow> rat list" where
  "linspace start stop num =
     (if num = 0 then []
      else if num = 1 then [stop]
      else map (\<lambda>i. start + of_nat i * ((stop - start) / of_nat (num - 1))) [0..<num - 1]
           @ [stop])"

definition round_half_away :: "rat \<Rightarrow> rat" where
  "round_half_away x =
     (if 0 \<le> x then of_int \<lfloor>x + 1 / 2\<rfloor> else - of_int \<lfloor>- x + 1 / 2\<rfloor>)"

definition prog_rep_points :: "int \<Rightarrow> rat list" where
  "prog_rep_points S = map round_half_away (linspace 0 (of_int S) 50)"

subsection \<open>The statements of the loop body (lines 119-130)\<close>

text \<open>Line 120: \<open>if (any(prog_rep_points == s)) p.increment();\<close>\<close>

definition increment_progress :: "rat list \<Rightarrow> nat \<Rightarrow> ('e, 'r) step" where
  "increment_progress pts s st =
     Inr (if of_nat s \<in> set pts then emit (Increment s) st else st)"

text \<open>
  Line 122: \<open>if (s % 200 == 0) checkUserInterrupt();\<close> The host is asked whether an
  interrupt is pending; \<open>irq s\<close> is its answer during iteration \<open>s\<close>. On a pending
  interrupt \<open>checkUserInterrupt\<close> raises.
\<close>

definition check_user_interrupt :: "(nat \<Rightarrow> bool) \<Rightarrow> nat \<Rightarrow> ('e, 'r) step" where
  "check_user_interrupt irq s st =
     (if s mod 200 = 0
      then (let st' = emit (Check_Interrupt s) st
            in if irq s then Inl (Interrupted, trace st') else Inr st')
      else Inr st)"

text \<open>Line 124: \<open>sample_hyperparameters(aux_hyper, aux_B, aux_A, VB, prior);\<close>\<close>

definition call_sample_hyperparameters ::
  "('e, 'r) samplers \<Rightarrow> 'e mat list \<Rightarrow> 'e prior \<Rightarrow> nat \<Rightarrow> ('e, 'r) step" where
  "call_sample_hyperparameters smp VB prior s st =
     (let st' = emit (Sample_Hyper s) st
      in case sample_hyperparameters smp (aux_hyper st') (aux_B st') (aux_A st') VB prior (rng st') of
           None \<Rightarrow> Inl (Sampler_Failed, trace st')
         | Some (h, r) \<Rightarrow> Inr (st'\<lparr>aux_hyper := h, rng := r\<rparr>))"

text \<open>Line 125: \<open>sample_A_homosk1(aux_A, aux_B, aux_hyper, Y, X, prior);\<close>\<close>

definition call_sample_A_homosk1 ::
  "('e, 'r) samplers \<Rightarrow> 'e mat \<Rightarrow> 'e mat \<Rightarrow> 'e prior \<Rightarrow> nat \<Rightarrow> ('e, 'r) step" where
  "call_sample_A_homosk1 smp Y X prior s st =
     (let st' = emit (Sample_A s) st
      in case sample_A_homosk1 smp (aux_A st') (aux_B st') (aux_hyper st') Y X prior (rng st') of
           None \<Rightarrow> Inl (Sampler_Failed, trace st')
         | Some (a, r) \<Rightarrow> Inr (st'\<lparr>aux_A := a, rng := r\<rparr>))"

text \<open>Line 126: \<open>sample_B_homosk1(aux_B, aux_A, aux_hyper, Y, X, prior, VB);\<close>\<close>

definition call_sample_B_homosk1 ::
  "('e, 'r) samplers \<Rightarrow> 'e mat \<Rightarrow> 'e mat \<Rightarrow> 'e prior \<Rightarrow> 'e mat list \<Rightarrow> nat \<Rightarrow> ('e, 'r) step" where
  "call_sample_B_homosk1 smp Y X prior VB s st =
     (let st' = emit (Sample_B s) st
      in case sample_B_homosk1 smp (aux_B st') (aux_A st') (aux_hyper st') Y X prior VB (rng st') of
           None \<Rightarrow> Inl (Sampler_Failed, trace st')
         | Some (b, r) \<Rightarrow> Inr (st'\<lparr>aux_B := b, rng := r\<rparr>))"

text \<open>Line 128: \<open>posterior_B.slice(s) = aux_B;\<close>\<close>

definition store_B :: "nat \<Rightarrow> ('e, 'r) step" where
  "store_B s st =
     (let st' = emit (Store_B s) st
      in case slice_assign (posterior_B st') s (aux_B st') of
           None \<Rightarrow> Inl (Size_Mismatch, trace st')
         | Some Q \<Rightarrow> Inr (st'\<lparr>posterior_B := Q\<rparr>))"

text \<open>Line 129: \<open>posterior_A.slice(s) = aux_A;\<close>\<close>

definition store_A :: "nat \<Rightarrow> ('e, 'r) step" where
  "store_A s st =
     (let st' = emit (Store_A s) st
      in case slice_assign (posterior_A st') s (aux_A st') of
           None \<Rightarrow> Inl (Size_Mismatch, trace st')
         | Some Q \<Rightarrow> Inr (st'\<lparr>posterior_A := Q\<rparr>))"

text \<open>Line 130: \<open>posterior_hyper.col(s) = aux_hyper;\<close>\<close>

definition store_hyper :: "nat \<Rightarrow> ('e, 'r) step" where
  "store_hyper s st =
     (let st' = emit (Store_Hyper s) st
      in case col_assign (posterior_hyper st') s (aux_hyper st') of
           None \<Rightarrow> Inl (Size_Mismatch, trace st')
         | Some M \<Rightarrow> Inr (st'\<lparr>posterior_hyper := M\<rparr>))"

text \<open>The body of the loop, lines 119-130, statement after statement.\<close>

definition loop_body ::
  "('e, 'r) samplers \<Rightarrow> (nat \<Rightarrow> bool) \<Rightarrow> rat list \<Rightarrow> 'e mat \<Rightarrow> 'e mat \<Rightarrow> 'e mat list \<Rightarrow> 'e prior
     \<Rightarrow> nat \<Rightarrow> ('e, 'r) step" where
  "loop_body smp irq pts Y X VB prior s =
     seq (increment_progress pts s)
    (seq (check_user_interrupt irq s)
    (seq (call_sample_hyperparameters smp VB prior s)
    (seq (call_sample_A_homosk1 smp Y X prior s)
    (seq (call_sample_B_homosk1 smp Y X prior VB s)
    (seq (store_B s)
    (seq (store_A s)
         (store_hyper s)))))))"

subsection \<open>The loop (lines 117-131) and \<open>bsvar\<close>\<close>

text \<open>
  \<open>for (int s = 0; s < S; s++)\<close>: the counter only takes the values \<open>0, ..., S - 1\<close>,
  so it is a natural number; the loop is entered at \<open>s\<close> with bound \<open>S\<close>.
\<close>

function gibbs_loop ::
  "('e, 'r) samplers \<Rightarrow> (nat \<Rightarrow> bool) \<Rightarrow> rat list \<Rightarrow> 'e mat \<Rightarrow> 'e mat \<Rightarrow> 'e mat list \<Rightarrow> 'e prior
     \<Rightarrow> nat \<Rightarrow> nat \<Rightarrow> ('e, 'r) step" where
  "gibbs_loop smp irq pts Y X VB prior s S st =
     (if s < S
      then (case loop_body smp irq pts Y X VB prior s st of
              Inl e \<Rightarrow> Inl e
            | Inr st' \<Rightarrow> gibbs_loop smp irq pts Y X VB prior (Suc s) S st')
      else Inr st)"
  by pat_completeness auto
termination
  by (relation "measure (\<lambda>(smp, irq, pts, Y, X, VB, prior, s, S, st). S - s)") auto

declare gibbs_loop.simps [simp del]

text \<open>
  Lines 106-115: \<open>N\<close> and \<open>K\<close> are read off \<open>Y\<close> and \<open>X\<close>, the starting values are
  copied into the running triple and the three buffers are allocated. No statement
  compares the dimensions of the inputs.
\<close>

definition init_state :: "nat \<Rightarrow> 'e mat \<Rightarrow> 'e mat \<Rightarrow> 'e draw \<Rightarrow> 'r \<Rightarrow> ('e::zero, 'r) state" where
  "init_state S Y X starting_values r0 =
     (let N = n_rows Y; K = n_rows X
      in \<lparr>aux_B = draw_B starting_values,
          aux_A = draw_A starting_values,
          aux_hyper = draw_hyper starting_values,
          posterior_B = new_cube N N S,
          posterior_A = new_cube N K S,
          posterior_hyper = new_mat 5 S,
          rng = r0,
          trace = []\<rparr>)"

text \<open>Lines 133-144: the returned list.\<close>

definition make_result :: "('e, 'r) state \<Rightarrow> 'e result" where
  "make_result st =
     \<lparr>last_draw = \<lparr>draw_B = aux_B st, draw_A = aux_A st, draw_hyper = aux_hyper st\<rparr>,
      posterior = \<lparr>post_B = posterior_B st, post_A = posterior_A st,
                   post_hyper = posterior_hyper st\<rparr>\<rparr>"

text \<open>
  \<open>bsvar\<close>. Besides the six arguments of the source the model takes what the call reads
  from its environment: the samplers, the interrupts of the host and the state of the
  random number generator. It returns the list or the error, and the trace of the call.
  The banner printed on the console (lines 98-103) is left out.

  \<open>S\<close> is a C++ \<open>int\<close>. A negative \<open>S\<close> is converted to an unsigned number of slices
  above \<open>2^31\<close>, and the constructor of the \<open>5 x S\<close> matrix raises for such a size; the
  loop would not be entered either.
\<close>

definition bsvar ::
  "('e::zero, 'r) samplers \<Rightarrow> (nat \<Rightarrow> bool) \<Rightarrow> 'r
     \<Rightarrow> int \<Rightarrow> 'e mat \<Rightarrow> 'e mat \<Rightarrow> 'e mat list \<Rightarrow> 'e prior \<Rightarrow> 'e draw
     \<Rightarrow> (error + 'e result) \<times> event list" where
  "bsvar smp irq r0 S Y X VB prior starting_values =
     (if S < 0 then (Inl Alloc_Failed, [])
      else (case gibbs_loop smp irq (prog_rep_points S) Y X VB prior 0 (nat S)
                   (init_state (nat S) Y X starting_values r0) of
              Inl (e, tr) \<Rightarrow> (Inl e, tr)
            | Inr st \<Rightarrow> (Inr (make_result st), trace st)))"

subsection \<open>The actions of one iteration\<close>

text \<open>
  The actions that iteration \<open>s\<close> performs when no statement raises: first those of
  lines 120 and 122, which depend on \<open>s\<close>, then the three samplers and the three copies.
\<close>

definition pre_events :: "rat list \<Rightarrow> nat \<Rightarrow> event list" where
  "pre_events pts s =
     (if of_nat s \<in> set pts then [Increment s] else [])
     @ (if s mod 200 = 0 then [Check_Interrupt s] else [])"


definition iter_events :: "rat list \<Rightarrow> nat \<Rightarrow> event list" where
  "iter_events pts s =
     pre_events pts s
     @ [Sample_Hyper s, Sample_A s, Sample_B s, Store_B s, Store_A s, Store_Hyper s]"


subsection \<open>Shapes\<close>

text \<open>
  A cube of shape \<open>r x c x s\<close>: the three dimensions, \<open>s\<close> slices, each an \<open>r x c\<close>
  matrix. A matrix of shape \<open>r x c\<close>: the two dimensions and \<open>r * c\<close> entries.
  \<open>buffers_ok\<close>: the three history buffers have the shapes they were allocated with.
\<close>

definition cube_shape :: "'e cube \<Rightarrow> nat \<Rightarrow> nat \<Rightarrow> nat \<Rightarrow> bool" where
  "cube_shape Q r c s \<longleftrightarrow>
     cube_n_rows Q = r \<and> cube_n_cols Q = c \<and> n_slices Q = s \<and> length (slices Q) = s
     \<and> (\<forall>M \<in> set (slices Q). n_rows M = r \<and> n_cols M = c)"

definition mat_shape :: "'e mat \<Rightarrow> nat \<Rightarrow> nat \<Rightarrow> bool" where
  "mat_shape M r c \<longleftrightarrow> n_rows M = r \<and> n_cols M = c \<and> length (mem M) = r * c"

definition buffers_ok :: "nat \<Rightarrow> nat \<Rightarrow> nat \<Rightarrow> ('e, 'r) state \<Rightarrow> bool" where
  "buffers_ok N K S st \<longleftrightarrow>
     cube_shape (posterior_B st) N N S \<and> cube_shape (posterior_A st) N K S
     \<and> mat_shape (posterior_hyper st) 5 S"

subsection \<open>The chain of the specification\<close>

text \<open>
  Section 4.4 of the specification describes an iteration as: invoke the Hyperparameter
  Sampler, then the A-Row Sampler, then the B-Column Sampler, each conditioning on the
  values just drawn by the earlier ones. \<open>gibbs_cycle\<close> is that description, a function
  of the triple and the generator state only; \<open>gibbs_chain ... n\<close> is the triple after
  \<open>n\<close> cycles from the starting values. Both are \<open>None\<close> when a sampler raises.
\<close>

definition gibbs_cycle ::
  "('e, 'r) samplers \<Rightarrow> 'e mat \<Rightarrow> 'e mat \<Rightarrow> 'e mat list \<Rightarrow> 'e prior
     \<Rightarrow> 'e draw \<times> 'r \<Rightarrow> ('e draw \<times> 'r) option" where
  "gibbs_cycle smp Y X VB prior = (\<lambda>(d, r).
     case sample_hyperparameters smp (draw_hyper d) (draw_B d) (draw_A d) VB prior r of
       None \<Rightarrow> None
     | Some (h, r1) \<Rightarrow>
        (case sample_A_homosk1 smp (draw_A d) (draw_B d) h Y X prior r1 of
           None \<Rightarrow> None
         | Some (a, r2) \<Rightarrow>
            (case sample_B_homosk1 smp (draw_B d) a h Y X prior VB r2 of
               None \<Rightarrow> None
             | Some (b, r3) \<Rightarrow> Some (\<lparr>draw_B = b, draw_A = a, draw_hyper = h\<rparr>, r3))))"

fun gibbs_chain ::
  "('e, 'r) samplers \<Rightarrow> 'e mat \<Rightarrow> 'e mat \<Rightarrow> 'e mat list \<Rightarrow> 'e prior
     \<Rightarrow> 'e draw \<Rightarrow> 'r \<Rightarrow> nat \<Rightarrow> ('e draw \<times> 'r) option" where
  "gibbs_chain smp Y X VB prior d0 r0 0 = Some (d0, r0)"
| "gibbs_chain smp Y X VB prior d0 r0 (Suc n) =
     (case gibbs_chain smp Y X VB prior d0 r0 n of
        None \<Rightarrow> None
      | Some x \<Rightarrow> gibbs_cycle smp Y X VB prior x)"

text \<open>
  The running triple of a state of the loop with the generator state, and the statement
  that the three buffers of a state hold the triple \<open>d\<close> at index \<open>j\<close>.
\<close>

definition current :: "('e, 'r) state \<Rightarrow> 'e draw \<times> 'r" where
  "current st = (\<lparr>draw_B = aux_B st, draw_A = aux_A st, draw_hyper = aux_hyper st\<rparr>, rng st)"

definition holds_draw :: "('e, 'r) state \<Rightarrow> nat \<Rightarrow> 'e draw \<Rightarrow> bool" where
  "holds_draw st j d \<longleftrightarrow>
     slices (posterior_B st) ! j = draw_B d \<and> slices (posterior_A st) ! j = draw_A d
     \<and> col (posterior_hyper st) j = draw_hyper d"

subsection \<open>A concrete run\<close>

text \<open>
  One dependent variable and two regressors (\<open>N = 1\<close>, \<open>K = 2\<close>), three observations,
  integer entries, a counter as generator state. The hyperparameter sampler returns five
  copies of the counter plus one; the samplers of \<open>A\<close> and \<open>B\<close> add the counter to
  every entry. \<open>res_ex\<close> and \<open>trace_ex\<close> are the result and the trace of two draws.
\<close>

definition smp_ex :: "(int, nat) samplers" where
  "smp_ex =
     \<lparr>sample_hyperparameters = (\<lambda>h B A VB prior r. Some (replicate 5 (int r + 1), r + 1)),
      sample_A_homosk1 = (\<lambda>A B h Y X prior r. Some (A\<lparr>mem := map (\<lambda>x. x + int r) (mem A)\<rparr>, r + 1)),
      sample_B_homosk1 = (\<lambda>B A h Y X prior VB r. Some (B\<lparr>mem := map (\<lambda>x. x + int r) (mem B)\<rparr>, r + 1))\<rparr>"

definition Y_ex :: "int mat" where "Y_ex = \<lparr>n_rows = 1, n_cols = 3, mem = [1, 2, 3]\<rparr>"

definition X_ex :: "int mat" where "X_ex = \<lparr>n_rows = 2, n_cols = 3, mem = [1, 1, 1, 2, 1, 3]\<rparr>"

definition prior_ex :: "int prior" where
  "prior_ex = \<lparr>prior_A = new_mat 1 2, A_V_inv = new_mat 2 2, B_V_inv = new_mat 1 1, B_nu = 1,
               hyper_nu = 1, hyper_a = 1, hyper_V = 1, hyper_S = 1\<rparr>"

definition VB_ex :: "int mat list" where "VB_ex = [\<lparr>n_rows = 1, n_cols = 1, mem = [1]\<rparr>]"

definition start_ex :: "int draw" where
  "start_ex = \<lparr>draw_B = \<lparr>n_rows = 1, n_cols = 1, mem = [7]\<rparr>,
               draw_A = \<lparr>n_rows = 1, n_cols = 2, mem = [8, 9]\<rparr>,
               draw_hyper = [0, 0, 0, 0, 0]\<rparr>"

definition res_ex :: "int result" where
  "res_ex =
     \<lparr>last_draw =
        \<lparr>draw_B = \<lparr>n_rows = 1, n_cols = 1, mem = [14]\<rparr>,
         draw_A = \<lparr>n_rows = 1, n_cols = 2, mem = [13, 14]\<rparr>,
         draw_hyper = [4, 4, 4, 4, 4]\<rparr>,
      posterior =
        \<lparr>post_B = \<lparr>cube_n_rows = 1, cube_n_cols = 1, n_slices = 2,
                   slices = [\<lparr>n_rows = 1, n_cols = 1, mem = [9]\<rparr>,
                             \<lparr>n_rows = 1, n_cols = 1, mem = [14]\<rparr>]\<rparr>,
         post_A = \<lparr>cube_n_rows = 1, cube_n_cols = 2, n_slices = 2,
                   slices = [\<lparr>n_rows = 1, n_cols = 2, mem = [9, 10]\<rparr>,
                             \<lparr>n_rows = 1, n_cols = 2, mem = [13, 14]\<rparr>]\<rparr>,
         post_hyper = \<lparr>n_rows = 5, n_cols = 2, mem = [1, 1, 1, 1, 1, 4, 4, 4, 4, 4]\<rparr>\<rparr>\<rparr>"

definition trace_ex :: "event list" where
  "trace_ex =
     [Increment 0, Check_Interrupt 0, Sample_Hyper 0, Sample_A 0, Sample_B 0,
      Store_B 0, Store_A 0, Store_Hyper 0,
      Increment 1, Sample_Hyper 1, Sample_A 1, Sample_B 1, Store_B 1, Store_A 1, Store_Hyper 1]"

subsection \<open>Kinds of actions\<close>

text \<open>
  The sampling and copying actions, the ticks of the progress bar and the polls for an
  interrupt; \<open>draw_events s\<close> are the six sampling and copying actions of iteration \<open>s\<close>
  in the order of lines 124-130.
\<close>

fun is_draw :: "event \<Rightarrow> bool" where
  "is_draw (Increment s) = False"
| "is_draw (Check_Interrupt s) = False"
| "is_draw ev = True"

fun is_increment :: "event \<Rightarrow> bool" where
  "is_increment (Increment s) = True"
| "is_increment ev = False"

fun is_poll :: "event \<Rightarrow> bool" where
  "is_poll (Check_Interrupt s) = True"
| "is_poll ev = False"

definition draw_events :: "nat \<Rightarrow> event list" where
  "draw_events s = [Sample_Hyper s, Sample_A s, Sample_B s, Store_B s, Store_A s, Store_Hyper s]"

subsection \<open>Assumptions on the samplers\<close>

text \<open>
  Modelled from the spec: \<open>sample_hyperparameters\<close> is defined in a source file that is
  not at hand. Section 4.1 of the specification says of its output that all values must
  be strictly positive: whenever the sampler returns, every entry of the vector it
  returns is greater than zero.
\<close>

definition hyper_sampler_positive :: "('e::{zero,ord}, 'r) samplers \<Rightarrow> bool" where
  "hyper_sampler_positive smp \<longleftrightarrow>
     (\<forall>h B A VB prior r h' r'.
        sample_hyperparameters smp h B A VB prior r = Some (h', r') \<longrightarrow> (\<forall>x \<in> set h'. 0 < x))"

text \<open>
  Samplers that never raise, return five hyperparameters and keep the dimensions of the
  matrix they overwrite; and a triple whose matrices are \<open>N x N\<close> and \<open>N x K\<close>. With
  these a call is known to reach a given iteration.
\<close>

definition samplers_regular :: "('e, 'r) samplers \<Rightarrow> bool" where
  "samplers_regular smp \<longleftrightarrow>
     (\<forall>h B A Y X VB prior r.
        (\<exists>h' r'. sample_hyperparameters smp h B A VB prior r = Some (h', r') \<and> length h' = 5)
      \<and> (\<exists>A' r'. sample_A_homosk1 smp A B h Y X prior r = Some (A', r')
             \<and> n_rows A' = n_rows A \<and> n_cols A' = n_cols A)
      \<and> (\<exists>B' r'. sample_B_homosk1 smp B A h Y X prior VB r = Some (B', r')
             \<and> n_rows B' = n_rows B \<and> n_cols B' = n_cols B))"

definition draw_fits :: "nat \<Rightarrow> nat \<Rightarrow> 'e draw \<Rightarrow> bool" where
  "draw_fits N K d \<longleftrightarrow>
     n_rows (draw_B d) = N \<and> n_cols (draw_B d) = N
     \<and> n_rows (draw_A d) = N \<and> n_cols (draw_A d) = K"

subsection \<open>Interrupts and further concrete inputs\<close>

text \<open>
  A host that never has an interrupt pending, and one where the user asks for
  cancellation during iteration \<open>k\<close> (the request stays pending until it is polled).
  \<open>X_bad\<close> has five observations where \<open>Y_ex\<close> has three; \<open>start_bad\<close> has a
  \<open>2 x 2\<close> matrix \<open>B\<close> where \<open>N = 1\<close>. \<open>res_one\<close> and \<open>trace_one\<close> are the result and
  the trace of one draw, \<open>trace_bad\<close> the trace of the call that starts from
  \<open>start_bad\<close>.
\<close>

definition no_irq :: "nat \<Rightarrow> bool" where
  "no_irq s \<longleftrightarrow> False"

definition irq_at :: "nat \<Rightarrow> nat \<Rightarrow> bool" where
  "irq_at k s \<longleftrightarrow> k \<le> s"

definition X_bad :: "int mat" where
  "X_bad = \<lparr>n_rows = 2, n_cols = 5, mem = [1, 1, 1, 2, 1, 3, 1, 4, 1, 5]\<rparr>"

definition start_bad :: "int draw" where
  "start_bad = \<lparr>draw_B = \<lparr>n_rows = 2, n_cols = 2, mem = [1, 0, 0, 1]\<rparr>,
                draw_A = \<lparr>n_rows = 1, n_cols = 2, mem = [8, 9]\<rparr>,
                draw_hyper = [0, 0, 0, 0, 0]\<rparr>"

definition res_one :: "int result" where
  "res_one =
     \<lparr>last_draw =
        \<lparr>draw_B = \<lparr>n_rows = 1, n_cols = 1, mem = [9]\<rparr>,
         draw_A = \<lparr>n_rows = 1, n_cols = 2, mem = [9, 10]\<rparr>,
         draw_hyper = [1, 1, 1, 1, 1]\<rparr>,
      posterior =
        \<lparr>post_B = \<lparr>cube_n_rows = 1, cube_n_cols = 1, n_slices = 1,
                   slices = [\<lparr>n_rows = 1, n_cols = 1, mem = [9]\<rparr>]\<rparr>,
         post_A = \<lparr>cube_n_rows = 1, cube_n_cols = 2, n_slices = 1,
                   slices = [\<lparr>n_rows = 1, n_cols = 2, mem = [9, 10]\<rparr>]\<rparr>,
         post_hyper = \<lparr>n_rows = 5, n_cols = 1, mem = [1, 1, 1, 1, 1]\<rparr>\<rparr>\<rparr>"

definition trace_one :: "event list" where
  "trace_one =
     [Increment 0, Check_Interrupt 0, Sample_Hyper 0, Sample_A 0, Sample_B 0,
      Store_B 0, Store_A 0, Store_Hyper 0]"

definition trace_bad :: "event list" where
  "trace_bad =
     [Increment 0, Check_Interrupt 0, Sample_Hyper 0, Sample_A 0, Sample_B 0, Store_B 0]"

section \<open>Properties\<close>

subsection \<open>Statements\<close>

lemma seq_Inr: "seq f g st = Inr st' \<longleftrightarrow> (\<exists>m. f st = Inr m \<and> g m = Inr st')"
  by (simp add: seq_def split: sum.splits)

lemma seq_Inl: "seq f g st = Inl e \<longleftrightarrow> f st = Inl e \<or> (\<exists>m. f st = Inr m \<and> g m = Inl e)"
  by (simp add: seq_def split: sum.splits)

lemmas stmt_defs = increment_progress_def check_user_interrupt_def
  call_sample_hyperparameters_def call_sample_A_homosk1_def call_sample_B_homosk1_def
  store_B_def store_A_def store_hyper_def emit_def


lemma increment_progress_Inr:
  "increment_progress pts s st = Inr m \<longleftrightarrow>
     m = st\<lparr>trace := trace st @ (if of_nat s \<in> set pts then [Increment s] else [])\<rparr>"
  by (auto simp: increment_progress_def emit_def)

lemma check_user_interrupt_Inr:
  "check_user_interrupt irq s st = Inr m \<longleftrightarrow>
     \<not> (s mod 200 = 0 \<and> irq s) \<and>
     m = st\<lparr>trace := trace st @ (if s mod 200 = 0 then [Check_Interrupt s] else [])\<rparr>"
  by (auto simp: check_user_interrupt_def emit_def Let_def)

lemma call_sample_hyperparameters_Inr:
  "call_sample_hyperparameters smp VB prior s st = Inr m \<longleftrightarrow>
     (\<exists>h r. sample_hyperparameters smp (aux_hyper st) (aux_B st) (aux_A st) VB prior (rng st) = Some (h, r)
        \<and> m = st\<lparr>aux_hyper := h, rng := r, trace := trace st @ [Sample_Hyper s]\<rparr>)"
  by (auto simp: call_sample_hyperparameters_def emit_def Let_def split: option.splits)

lemma call_sample_A_homosk1_Inr:
  "call_sample_A_homosk1 smp Y X prior s st = Inr m \<longleftrightarrow>
     (\<exists>a r. sample_A_homosk1 smp (aux_A st) (aux_B st) (aux_hyper st) Y X prior (rng st) = Some (a, r)
        \<and> m = st\<lparr>aux_A := a, rng := r, trace := trace st @ [Sample_A s]\<rparr>)"
  by (auto simp: call_sample_A_homosk1_def emit_def Let_def split: option.splits)

lemma call_sample_B_homosk1_Inr:
  "call_sample_B_homosk1 smp Y X prior VB s st = Inr m \<longleftrightarrow>
     (\<exists>b r. sample_B_homosk1 smp (aux_B st) (aux_A st) (aux_hyper st) Y X prior VB (rng st) = Some (b, r)
        \<and> m = st\<lparr>aux_B := b, rng := r, trace := trace st @ [Sample_B s]\<rparr>)"
  by (auto simp: call_sample_B_homosk1_def emit_def Let_def split: option.splits)

lemma store_B_Inr:
  "store_B s st = Inr m \<longleftrightarrow>
     (\<exists>Q. slice_assign (posterior_B st) s (aux_B st) = Some Q
        \<and> m = st\<lparr>posterior_B := Q, trace := trace st @ [Store_B s]\<rparr>)"
  by (auto simp: store_B_def emit_def Let_def split: option.splits)

lemma store_A_Inr:
  "store_A s st = Inr m \<longleftrightarrow>
     (\<exists>Q. slice_assign (posterior_A st) s (aux_A st) = Some Q
        \<and> m = st\<lparr>posterior_A := Q, trace := trace st @ [Store_A s]\<rparr>)"
  by (auto simp: store_A_def emit_def Let_def split: option.splits)

lemma store_hyper_Inr:
  "store_hyper s st = Inr m \<longleftrightarrow>
     (\<exists>M. col_assign (posterior_hyper st) s (aux_hyper st) = Some M
        \<and> m = st\<lparr>posterior_hyper := M, trace := trace st @ [Store_Hyper s]\<rparr>)"
  by (auto simp: store_hyper_def emit_def Let_def split: option.splits)

lemmas stmt_Inr = increment_progress_Inr check_user_interrupt_Inr
  call_sample_hyperparameters_Inr call_sample_A_homosk1_Inr call_sample_B_homosk1_Inr
  store_B_Inr store_A_Inr store_hyper_Inr

lemma loop_body_Inr_iff:
  "loop_body smp irq pts Y X VB prior s st = Inr st' \<longleftrightarrow>
   (\<exists>h r1 a r2 b r3 QB QA MH.
     sample_hyperparameters smp (aux_hyper st) (aux_B st) (aux_A st) VB prior (rng st) = Some (h, r1) \<and>
     sample_A_homosk1 smp (aux_A st) (aux_B st) h Y X prior r1 = Some (a, r2) \<and>
     sample_B_homosk1 smp (aux_B st) a h Y X prior VB r2 = Some (b, r3) \<and>
     slice_assign (posterior_B st) s b = Some QB \<and>
     slice_assign (posterior_A st) s a = Some QA \<and>
     col_assign (posterior_hyper st) s h = Some MH \<and>
     \<not> (s mod 200 = 0 \<and> irq s) \<and>
     st' = \<lparr>aux_B = b, aux_A = a, aux_hyper = h, posterior_B = QB, posterior_A = QA,
            posterior_hyper = MH, rng = r3, trace = trace st @ iter_events pts s\<rparr>)"
  unfolding loop_body_def seq_Inr stmt_Inr
  by (auto simp: iter_events_def pre_events_def)

lemma increment_progress_Inl: "increment_progress pts s st \<noteq> Inl x"
  by (simp add: increment_progress_def)

lemma check_user_interrupt_Inl:
  "check_user_interrupt irq s st = Inl x \<longleftrightarrow>
     s mod 200 = 0 \<and> irq s \<and> x = (Interrupted, trace st @ [Check_Interrupt s])"
  by (auto simp: check_user_interrupt_def emit_def Let_def)

lemma call_sample_hyperparameters_Inl:
  "call_sample_hyperparameters smp VB prior s st = Inl x \<longleftrightarrow>
     sample_hyperparameters smp (aux_hyper st) (aux_B st) (aux_A st) VB prior (rng st) = None
     \<and> x = (Sampler_Failed, trace st @ [Sample_Hyper s])"
  by (auto simp: call_sample_hyperparameters_def emit_def Let_def split: option.splits)

lemma call_sample_A_homosk1_Inl:
  "call_sample_A_homosk1 smp Y X prior s st = Inl x \<longleftrightarrow>
     sample_A_homosk1 smp (aux_A st) (aux_B st) (aux_hyper st) Y X prior (rng st) = None
     \<and> x = (Sampler_Failed, trace st @ [Sample_A s])"
  by (auto simp: call_sample_A_homosk1_def emit_def Let_def split: option.splits)

lemma call_sample_B_homosk1_Inl:
  "call_sample_B_homosk1 smp Y X prior VB s st = Inl x \<longleftrightarrow>
     sample_B_homosk1 smp (aux_B st) (aux_A st) (aux_hyper st) Y X prior VB (rng st) = None
     \<and> x = (Sampler_Failed, trace st @ [Sample_B s])"
  by (auto simp: call_sample_B_homosk1_def emit_def Let_def split: option.splits)

lemma store_B_Inl:
  "store_B s st = Inl x \<longleftrightarrow>
     slice_assign (posterior_B st) s (aux_B st) = None \<and> x = (Size_Mismatch, trace st @ [Store_B s])"
  by (auto simp: store_B_def emit_def Let_def split: option.splits)

lemma store_A_Inl:
  "store_A s st = Inl x \<longleftrightarrow>
     slice_assign (posterior_A st) s (aux_A st) = None \<and> x = (Size_Mismatch, trace st @ [Store_A s])"
  by (auto simp: store_A_def emit_def Let_def split: option.splits)

lemma store_hyper_Inl:
  "store_hyper s st = Inl x \<longleftrightarrow>
     col_assign (posterior_hyper st) s (aux_hyper st) = None
     \<and> x = (Size_Mismatch, trace st @ [Store_Hyper s])"
  by (auto simp: store_hyper_def emit_def Let_def split: option.splits)

lemmas stmt_Inl = increment_progress_Inl check_user_interrupt_Inl
  call_sample_hyperparameters_Inl call_sample_A_homosk1_Inl call_sample_B_homosk1_Inl
  store_B_Inl store_A_Inl store_hyper_Inl

lemma loop_body_Inl:
  assumes "loop_body smp irq pts Y X VB prior s st = Inl (e, tr)"
  shows "(e = Interrupted \<and> s mod 200 = 0 \<and> irq s \<and> tr = trace st @ pre_events pts s)
       \<or> (e = Sampler_Failed \<and> (\<exists>zs \<in> {[Sample_Hyper s], [Sample_Hyper s, Sample_A s],
                [Sample_Hyper s, Sample_A s, Sample_B s]}. tr = trace st @ pre_events pts s @ zs))
       \<or> (e = Size_Mismatch \<and> (\<exists>zs \<in> {[Store_B s], [Store_B s, Store_A s],
                [Store_B s, Store_A s, Store_Hyper s]}.
             tr = trace st @ pre_events pts s @ [Sample_Hyper s, Sample_A s, Sample_B s] @ zs))"
  using assms unfolding loop_body_def seq_Inl stmt_Inr stmt_Inl
  by (elim disjE exE conjE) (simp_all add: increment_progress_Inl pre_events_def)

lemma gibbs_loop_Inr_induct_aux:
  assumes step: "\<And>k m m'. s0 \<le> k \<Longrightarrow> k < S \<Longrightarrow> P k m
           \<Longrightarrow> loop_body smp irq pts Y X VB prior k m = Inr m' \<Longrightarrow> P (Suc k) m'"
  shows "s0 \<le> s \<Longrightarrow> s \<le> S \<Longrightarrow> gibbs_loop smp irq pts Y X VB prior s S st = Inr st'
           \<Longrightarrow> P s st \<Longrightarrow> P S st'"
proof (induction "S - s" arbitrary: s st)
  case 0
  then show ?case by (simp add: gibbs_loop.simps [of _ _ _ _ _ _ _ s])
next
  case (Suc n)
  then have lt: "s < S" by simp
  with Suc.prems(3) obtain m where b: "loop_body smp irq pts Y X VB prior s st = Inr m"
    and l: "gibbs_loop smp irq pts Y X VB prior (Suc s) S m = Inr st'"
    by (auto simp: gibbs_loop.simps [of _ _ _ _ _ _ _ s] split: sum.splits)
  have "P (Suc s) m" using step [OF Suc.prems(1) lt Suc.prems(4) b] .
  moreover have "n = S - Suc s" using Suc.hyps(2) by simp
  ultimately show ?case using Suc.hyps(1) [of "Suc s" m] l lt Suc.prems(1) by simp
qed

lemma gibbs_loop_Inr_induct [consumes 2, case_names init step]:
  assumes "gibbs_loop smp irq pts Y X VB prior s S st = Inr st'" and "s \<le> S"
    and "P s st"
    and "\<And>k m m'. s \<le> k \<Longrightarrow> k < S \<Longrightarrow> P k m
           \<Longrightarrow> loop_body smp irq pts Y X VB prior k m = Inr m' \<Longrightarrow> P (Suc k) m'"
  shows "P S st'"
  using gibbs_loop_Inr_induct_aux [where P = P, OF assms(4) order_refl assms(2) assms(1) assms(3)]
  by simp


subsection \<open>Zero draws\<close>

text \<open>
  Claim C10. Called with \<open>S = 0\<close>, \<open>bsvar\<close> raises no error and performs no action of the
  loop (the trace is empty); the three histories have no slice (\<open>N x N x 0\<close>,
  \<open>N x K x 0\<close> and \<open>5 x 0\<close>, with \<open>N\<close> and \<open>K\<close> the numbers of rows of \<open>Y\<close> and \<open>X\<close>),
  and \<open>last_draw\<close> is \<open>starting_values\<close>.
\<close>

theorem bsvar_zero_draws:
  "bsvar smp irq r0 0 Y X VB prior starting_values =
     (Inr \<lparr>last_draw = starting_values,
           posterior =
             \<lparr>post_B = \<lparr>cube_n_rows = n_rows Y, cube_n_cols = n_rows Y, n_slices = 0, slices = []\<rparr>,
              post_A = \<lparr>cube_n_rows = n_rows Y, cube_n_cols = n_rows X, n_slices = 0, slices = []\<rparr>,
              post_hyper = \<lparr>n_rows = 5, n_cols = 0, mem = []\<rparr>\<rparr>\<rparr>,
      [])"
  by (simp add: bsvar_def gibbs_loop.simps init_state_def make_result_def new_cube_def
      new_mat_def Let_def)

subsection \<open>The loop\<close>

lemma gibbs_loop_done: "S \<le> s \<Longrightarrow> gibbs_loop smp irq pts Y X VB prior s S st = Inr st"
  by (simp add: gibbs_loop.simps [of _ _ _ _ _ _ _ s])

lemma gibbs_loop_unfold:
  "s < S \<Longrightarrow> gibbs_loop smp irq pts Y X VB prior s S st =
     (case loop_body smp irq pts Y X VB prior s st of
        Inl e \<Rightarrow> Inl e
      | Inr st' \<Rightarrow> gibbs_loop smp irq pts Y X VB prior (Suc s) S st')"
  by (simp add: gibbs_loop.simps [of _ _ _ _ _ _ _ s])

lemma gibbs_loop_split:
  "s \<le> k \<Longrightarrow> k \<le> S \<Longrightarrow>
   gibbs_loop smp irq pts Y X VB prior s S st =
     (case gibbs_loop smp irq pts Y X VB prior s k st of
        Inl x \<Rightarrow> Inl x
      | Inr m \<Rightarrow> gibbs_loop smp irq pts Y X VB prior k S m)"
proof (induction "k - s" arbitrary: s st)
  case 0
  then show ?case by (simp add: gibbs_loop_done)
next
  case (Suc n)
  then have "s < k" "s < S" "n = k - Suc s" "Suc s \<le> k" by simp_all
  then show ?case
    using Suc.hyps(1) [of "Suc s"] Suc.prems
    by (simp add: gibbs_loop_unfold split: sum.splits)
qed

lemma gibbs_loop_snoc:
  assumes "s \<le> k"
  shows "gibbs_loop smp irq pts Y X VB prior s (Suc k) st =
     (case gibbs_loop smp irq pts Y X VB prior s k st of
        Inl x \<Rightarrow> Inl x
      | Inr m \<Rightarrow> loop_body smp irq pts Y X VB prior k m)"
proof -
  have "gibbs_loop smp irq pts Y X VB prior k (Suc k) m = loop_body smp irq pts Y X VB prior k m"
    for m
    by (simp add: gibbs_loop_unfold gibbs_loop_done split: sum.splits)
  then show ?thesis
    using gibbs_loop_split [OF assms, of "Suc k" smp irq pts Y X VB prior st]
    by (simp split: sum.splits)
qed

lemma gibbs_loop_Inl:
  "gibbs_loop smp irq pts Y X VB prior s S st = Inl x \<Longrightarrow>
   \<exists>k m. s \<le> k \<and> k < S \<and> gibbs_loop smp irq pts Y X VB prior s k st = Inr m
        \<and> loop_body smp irq pts Y X VB prior k m = Inl x"
proof (induction S)
  case 0
  then show ?case by (simp add: gibbs_loop_done)
next
  case (Suc S)
  show ?case
  proof (cases "s \<le> S")
    case True
    show ?thesis
    proof (cases "gibbs_loop smp irq pts Y X VB prior s S st")
      case (Inl y)
      with Suc.prems True have "y = x" by (simp add: gibbs_loop_snoc)
      with Inl Suc.IH show ?thesis by (metis less_Suc_eq)
    next
      case (Inr m)
      with Suc.prems True have "loop_body smp irq pts Y X VB prior S m = Inl x"
        by (simp add: gibbs_loop_snoc)
      with Inr True show ?thesis by blast
    qed
  next
    case False
    with Suc.prems show ?thesis by (simp add: gibbs_loop_done)
  qed
qed

lemma gibbs_loop_Inr_prefix:
  assumes "gibbs_loop smp irq pts Y X VB prior s S st = Inr st'" and "s \<le> k" and "k \<le> S"
  shows "\<exists>m. gibbs_loop smp irq pts Y X VB prior s k st = Inr m
           \<and> gibbs_loop smp irq pts Y X VB prior k S m = Inr st'"
  using assms(1) gibbs_loop_split [OF assms(2,3), of smp irq pts Y X VB prior st]
  by (simp split: sum.splits)

lemma gibbs_loop_trace:
  assumes "gibbs_loop smp irq pts Y X VB prior s S st = Inr st'" and "s \<le> S"
  shows "trace st' = trace st @ concat (map (iter_events pts) [s..<S])"
  using assms
proof (induction rule: gibbs_loop_Inr_induct)
  case init
  show ?case by simp
next
  case (step k m m')
  then show ?case by (auto simp: loop_body_Inr_iff)
qed

subsection \<open>Slices and columns\<close>

lemma cube_shape_new: "cube_shape (new_cube r c s) r c s"
  by (simp add: cube_shape_def new_cube_def new_mat_def)

lemma mat_shape_new: "mat_shape (new_mat r c) r c"
  by (simp add: mat_shape_def new_mat_def)

lemma slice_assign_shape:
  assumes "slice_assign Q s M = Some Q'" and "cube_shape Q r c n"
  shows "cube_shape Q' r c n"
proof -
  have "set ((slices Q)[s := M]) \<subseteq> insert M (set (slices Q))"
    by (rule set_update_subset_insert)
  then show ?thesis
    using assms by (auto simp: slice_assign_def cube_shape_def split: if_splits)
qed

lemma slice_assign_nth:
  "slice_assign Q s M = Some Q' \<Longrightarrow> cube_shape Q r c n \<Longrightarrow> slices Q' ! s = M"
  by (auto simp: slice_assign_def cube_shape_def split: if_splits)

lemma slice_assign_other:
  "slice_assign Q s M = Some Q' \<Longrightarrow> j \<noteq> s \<Longrightarrow> slices Q' ! j = slices Q ! j"
  by (auto simp: slice_assign_def split: if_splits)

lemma overwrite_before:
  assumes "a \<le> length xs" and "b + l \<le> a"
  shows "take l (drop b (take a xs @ ys)) = take l (drop b xs)"
proof -
  have "drop b (take a xs @ ys) = drop b (take a xs) @ ys"
    using assms by simp
  moreover have "l \<le> length (drop b (take a xs))"
    using assms by simp
  ultimately have "take l (drop b (take a xs @ ys)) = take l (drop b (take a xs))"
    by simp
  also have "\<dots> = take l (take (a - b) (drop b xs))"
    by (simp add: drop_take)
  also have "\<dots> = take l (drop b xs)"
    using assms by (simp add: min_def)
  finally show ?thesis .
qed

lemma overwrite_after:
  assumes "a + length v \<le> length xs" and "a + length v \<le> b"
  shows "drop b (take a xs @ v @ drop (a + length v) xs) = drop b xs"
proof -
  have la: "length (take a xs) = a" using assms(1) by simp
  have "drop b (take a xs @ v @ drop (a + length v) xs)
      = drop (b - a) (v @ drop (a + length v) xs)"
    using assms(2) la by simp
  also have "\<dots> = drop (b - a - length v) (drop (a + length v) xs)"
    using assms(2) by simp
  also have "\<dots> = drop b xs"
    using assms(2) by simp
  finally show ?thesis .
qed

lemma overwrite_same:
  assumes "a \<le> length xs"
  shows "take (length v) (drop a (take a xs @ v @ ys)) = v"
  using assms by simp

lemma col_bounds:
  fixes j c r :: nat
  assumes "j < c"
  shows "j * r + r \<le> c * r"
proof -
  have "Suc j * r \<le> c * r" using assms by (intro mult_le_mono1) simp
  then show ?thesis by simp
qed

lemma col_assign_unfold:
  assumes "col_assign M j v = Some M'" and "mat_shape M r c"
  shows "j < c" and "length v = r" and "j * r + r \<le> length (mem M)"
    and "M' = M\<lparr>mem := take (j * r) (mem M) @ v @ drop (j * r + r) (mem M)\<rparr>"
proof -
  from assms(2) have sh: "n_rows M = r" "n_cols M = c" "length (mem M) = r * c"
    by (simp_all add: mat_shape_def)
  from assms(1) sh show "j < c" and "length v = r"
    by (auto simp: col_assign_def split: if_splits)
  then show "j * r + r \<le> length (mem M)"
    using col_bounds [of j c r] sh by (simp add: mult.commute)
  from assms(1) sh
  show "M' = M\<lparr>mem := take (j * r) (mem M) @ v @ drop (j * r + r) (mem M)\<rparr>"
    by (auto simp: col_assign_def add.commute split: if_splits)
qed

lemma col_assign_shape:
  assumes "col_assign M j v = Some M'" and "mat_shape M r c"
  shows "mat_shape M' r c"
  using col_assign_unfold [OF assms] assms(2)
  by (simp add: mat_shape_def)

lemma col_assign_col:
  assumes "col_assign M j v = Some M'" and "mat_shape M r c"
  shows "col M' j = v"
proof -
  note u = col_assign_unfold [OF assms]
  have "n_rows M' = r" using u(4) assms(2) by (simp add: mat_shape_def)
  moreover have "j * r \<le> length (mem M)" using u(3) by simp
  ultimately show ?thesis
    unfolding col_def using u(2,4) by simp
qed

lemma col_assign_other:
  assumes "col_assign M j v = Some M'" and "mat_shape M r c" and "i \<noteq> j"
  shows "col M' i = col M i"
proof -
  note u = col_assign_unfold [OF assms(1,2)]
  have r: "n_rows M' = r" "n_rows M = r" using u(4) assms(2) by (simp_all add: mat_shape_def)
  have mem': "mem M' = take (j * r) (mem M) @ v @ drop (j * r + length v) (mem M)"
    using u(2,4) by simp
  show ?thesis
  proof (cases "i < j")
    case True
    then have "i * r + r \<le> j * r" using col_bounds [of i j r] by simp
    moreover have "j * r \<le> length (mem M)" using u(3) by simp
    ultimately show ?thesis
      unfolding col_def r mem' by (rule overwrite_before [rotated])
  next
    case False
    with assms(3) have "j < i" by simp
    then have "j * r + r \<le> i * r" using col_bounds [of j i r] by simp
    then have "j * r + length v \<le> i * r" using u(2) by simp
    moreover have "j * r + length v \<le> length (mem M)" using u(2,3) by simp
    ultimately have "drop (i * r) (mem M') = drop (i * r) (mem M)"
      unfolding mem' by (intro overwrite_after)
    then show ?thesis
      unfolding col_def r by simp
  qed
qed

subsection \<open>The history buffers along a run\<close>

lemma buffers_ok_init: "buffers_ok (n_rows Y) (n_rows X) S (init_state S Y X sv r0)"
  by (simp add: buffers_ok_def init_state_def Let_def cube_shape_new mat_shape_new)

lemma loop_body_buffers:
  assumes "loop_body smp irq pts Y X VB prior k m = Inr m'" and "buffers_ok N K S m"
  shows "buffers_ok N K S m'"
    and "slices (posterior_B m') ! k = aux_B m'"
    and "slices (posterior_A m') ! k = aux_A m'"
    and "col (posterior_hyper m') k = aux_hyper m'"
    and "j \<noteq> k \<Longrightarrow> slices (posterior_B m') ! j = slices (posterior_B m) ! j"
    and "j \<noteq> k \<Longrightarrow> slices (posterior_A m') ! j = slices (posterior_A m) ! j"
    and "j \<noteq> k \<Longrightarrow> col (posterior_hyper m') j = col (posterior_hyper m) j"
  using assms
  by (auto simp: loop_body_Inr_iff buffers_ok_def
      intro: slice_assign_shape col_assign_shape
      dest: slice_assign_nth col_assign_col slice_assign_other col_assign_other)

lemma loop_body_cycle:
  "loop_body smp irq pts Y X VB prior k m = Inr m' \<Longrightarrow>
   gibbs_cycle smp Y X VB prior (current m) = Some (current m')"
  by (auto simp: loop_body_Inr_iff gibbs_cycle_def current_def)

lemma current_init: "current (init_state S Y X sv r0) = (sv, r0)"
  by (simp add: current_def init_state_def Let_def)

lemma bsvar_Inr:
  "bsvar smp irq r0 S Y X VB prior sv = (Inr res, tr) \<longleftrightarrow>
     0 \<le> S \<and> (\<exists>st. gibbs_loop smp irq (prog_rep_points S) Y X VB prior 0 (nat S)
                      (init_state (nat S) Y X sv r0) = Inr st
                 \<and> res = make_result st \<and> tr = trace st)"
  by (auto simp: bsvar_def split: sum.splits)

lemma bsvar_Inl:
  "bsvar smp irq r0 S Y X VB prior sv = (Inl e, tr) \<longleftrightarrow>
     (S < 0 \<and> e = Alloc_Failed \<and> tr = [])
     \<or> (0 \<le> S \<and> gibbs_loop smp irq (prog_rep_points S) Y X VB prior 0 (nat S)
                      (init_state (nat S) Y X sv r0) = Inl (e, tr))"
  by (auto simp: bsvar_def split: sum.splits)

lemma run_history:
  assumes "gibbs_loop smp irq pts Y X VB prior 0 k (init_state S Y X sv r0) = Inr m"
  shows "gibbs_chain smp Y X VB prior sv r0 k = Some (current m)
       \<and> buffers_ok (n_rows Y) (n_rows X) S m
       \<and> (\<forall>j<k. \<exists>d r. gibbs_chain smp Y X VB prior sv r0 (Suc j) = Some (d, r) \<and> holds_draw m j d)"
  using assms le0
proof (induction rule: gibbs_loop_Inr_induct)
  case init
  show ?case by (simp add: current_init buffers_ok_init)
next
  case (step k m m')
  note b = loop_body_buffers [OF step.hyps(3)] and c = loop_body_cycle [OF step.hyps(3)]
  from step.IH have ok: "buffers_ok (n_rows Y) (n_rows X) S m" by simp
  have chain: "gibbs_chain smp Y X VB prior sv r0 (Suc k) = Some (current m')"
    using step.IH c by simp
  have "\<exists>d r. gibbs_chain smp Y X VB prior sv r0 (Suc j) = Some (d, r) \<and> holds_draw m' j d"
    if "j < Suc k" for j
  proof (cases "j = k")
    case True
    then show ?thesis
      using chain b(2-4) [OF ok] by (simp add: current_def holds_draw_def)
  next
    case False
    with that have "j < k" by simp
    with step.IH obtain d r where "gibbs_chain smp Y X VB prior sv r0 (Suc j) = Some (d, r)"
      and "holds_draw m j d" by blast
    then show ?thesis
      using b(5-7) [OF ok False] by (auto simp: holds_draw_def)
  qed
  then show ?case using chain b(1) [OF ok] by blast
qed

lemma run_last:
  assumes "gibbs_loop smp irq pts Y X VB prior 0 (Suc k) (init_state S Y X sv r0) = Inr m"
  shows "holds_draw m k (fst (current m))"
proof -
  from run_history [OF assms] obtain d r
    where "gibbs_chain smp Y X VB prior sv r0 (Suc k) = Some (d, r)" and "holds_draw m k d"
      and "gibbs_chain smp Y X VB prior sv r0 (Suc k) = Some (current m)"
    by blast
  then have "(d, r) = current m" by (simp del: gibbs_chain.simps)
  then have "d = fst (current m)" by (metis fst_conv)
  with \<open>holds_draw m k d\<close> show ?thesis by simp
qed



subsection \<open>The progress points\<close>

lemma linspace_50: "linspace 0 x 50 = map (\<lambda>i. of_nat i * (x / 49)) [0..<50]"
proof -
  have "[0..<50] = [0..<49] @ [49]"
    using upt_Suc_append [of 0 49] by simp
  then show ?thesis by (simp add: linspace_def)
qed

lemma prog_rep_points_eq:
  "prog_rep_points S = map (\<lambda>i. round_half_away (of_nat i * of_int S / 49)) [0..<50]"
  by (simp add: prog_rep_points_def linspace_50 del: upt_rec_numeral)

lemma prog_rep_points_mem:
  "x \<in> set (prog_rep_points S) \<longleftrightarrow> (\<exists>i<50. x = round_half_away (of_nat i * of_int S / 49))"
  unfolding prog_rep_points_eq by (auto simp del: upt_rec_numeral)

lemma ex_pts: "0 \<in> set (prog_rep_points 2)" "1 \<in> set (prog_rep_points 2)"
proof -
  show "0 \<in> set (prog_rep_points 2)"
    unfolding prog_rep_points_mem by (rule exI [of _ 0]) (simp add: round_half_away_def floor_eq_iff)
  show "1 \<in> set (prog_rep_points 2)"
    unfolding prog_rep_points_mem by (rule exI [of _ 25]) (simp add: round_half_away_def floor_eq_iff)
qed

subsection \<open>The concrete run\<close>

lemma replicate_numeral: "replicate (numeral k) x = x # replicate (pred_numeral k) x"
  by (simp add: numeral_eq_Suc)

lemma nat_2: "nat 2 = Suc (Suc 0)" by simp

lemma ex_run:
  "\<not> irq 0 \<Longrightarrow> bsvar smp_ex irq 0 2 Y_ex X_ex VB_ex prior_ex start_ex = (Inr res_ex, trace_ex)"
  unfolding bsvar_def nat_2
  by (simp add: gibbs_loop_unfold gibbs_loop_done loop_body_def seq_def stmt_defs ex_pts Let_def
      init_state_def smp_ex_def slice_assign_def col_assign_def new_cube_def new_mat_def
      Y_ex_def X_ex_def start_ex_def make_result_def res_ex_def trace_ex_def replicate_numeral)

subsection \<open>Shapes of the result and the last draw\<close>

text \<open>
  Claim C1. When \<open>bsvar\<close> returns for \<open>S > 0\<close> draws, with \<open>N\<close> and \<open>K\<close> the numbers of
  rows of \<open>Y\<close> and \<open>X\<close>: the history of \<open>A\<close> has shape \<open>N x K x S\<close>, the history of \<open>B\<close>
  has shape \<open>N x N x S\<close>, the history of \<open>hyper\<close> has shape \<open>5 x S\<close>, and the three
  elements of \<open>last_draw\<close> are slice \<open>S - 1\<close> (the last one) of the three histories.
\<close>

theorem bsvar_shapes_and_last_draw:
  assumes "bsvar smp irq r0 S Y X VB prior sv = (Inr res, tr)" and "0 < S"
  shows "cube_shape (post_A (posterior res)) (n_rows Y) (n_rows X) (nat S)
       \<and> cube_shape (post_B (posterior res)) (n_rows Y) (n_rows Y) (nat S)
       \<and> mat_shape (post_hyper (posterior res)) 5 (nat S)
       \<and> slices (post_A (posterior res)) ! (nat S - 1) = draw_A (last_draw res)
       \<and> slices (post_B (posterior res)) ! (nat S - 1) = draw_B (last_draw res)
       \<and> col (post_hyper (posterior res)) (nat S - 1) = draw_hyper (last_draw res)"
proof -
  from assms(1) obtain st where
    loop: "gibbs_loop smp irq (prog_rep_points S) Y X VB prior 0 (nat S)
             (init_state (nat S) Y X sv r0) = Inr st"
    and res: "res = make_result st"
    by (auto simp: bsvar_Inr)
  from assms(2) obtain k where k: "nat S = Suc k" by (cases "nat S") auto
  have "buffers_ok (n_rows Y) (n_rows X) (nat S) st"
    using run_history [OF loop] by simp
  moreover have "holds_draw st k (fst (current st))"
    using loop unfolding k by (rule run_last)
  ultimately show ?thesis
    unfolding res k by (simp add: make_result_def buffers_ok_def holds_draw_def current_def k)
qed

theorem bsvar_shapes_and_last_draw_witness:
  "bsvar smp_ex no_irq 0 2 Y_ex X_ex VB_ex prior_ex start_ex = (Inr res_ex, trace_ex)
   \<and> (0::int) < 2
   \<and> cube_shape (post_A (posterior res_ex)) (n_rows Y_ex) (n_rows X_ex) (nat 2)
   \<and> cube_shape (post_B (posterior res_ex)) (n_rows Y_ex) (n_rows Y_ex) (nat 2)
   \<and> mat_shape (post_hyper (posterior res_ex)) 5 (nat 2)
   \<and> slices (post_A (posterior res_ex)) ! (nat 2 - 1) = draw_A (last_draw res_ex)
   \<and> slices (post_B (posterior res_ex)) ! (nat 2 - 1) = draw_B (last_draw res_ex)
   \<and> col (post_hyper (posterior res_ex)) (nat 2 - 1) = draw_hyper (last_draw res_ex)"
proof -
  have run: "bsvar smp_ex no_irq 0 2 Y_ex X_ex VB_ex prior_ex start_ex
               = (Inr res_ex, trace_ex)"
    by (rule ex_run) (simp add: no_irq_def)
  show ?thesis
    using run bsvar_shapes_and_last_draw [OF run] by simp
qed

subsection \<open>Traces\<close>

lemma filter_concat_map:
  "filter P (concat (map f xs)) = concat (map (\<lambda>s. filter P (f s)) xs)"
  by (induction xs) simp_all

lemma concat_map_if:
  "concat (map (\<lambda>s. if Q s then [g s] else []) xs) = map g (filter Q xs)"
  by (induction xs) simp_all

lemma filter_eq_upt: "filter (\<lambda>s. s = j) [0..<n] = (if j < n then [j] else [])"
  by (induction n) auto

lemma iter_events_draw: "filter is_draw (iter_events pts s) = draw_events s"
  by (simp add: iter_events_def pre_events_def draw_events_def)

lemma iter_events_increment:
  "filter is_increment (iter_events pts s) = (if of_nat s \<in> set pts then [Increment s] else [])"
  by (simp add: iter_events_def pre_events_def)

lemma iter_events_poll:
  "filter is_poll (iter_events pts s) = (if s mod 200 = 0 then [Check_Interrupt s] else [])"
  by (simp add: iter_events_def pre_events_def)

lemma iter_events_store:
  "filter ((=) (Store_B j)) (iter_events pts s) = (if s = j then [Store_B s] else [])"
  "filter ((=) (Store_A j)) (iter_events pts s) = (if s = j then [Store_A s] else [])"
  "filter ((=) (Store_Hyper j)) (iter_events pts s) = (if s = j then [Store_Hyper s] else [])"
  by (auto simp: iter_events_def pre_events_def)

lemma run_draws:
  "filter is_draw (concat (map (iter_events pts) [0..<n])) = concat (map draw_events [0..<n])"
  by (simp add: filter_concat_map iter_events_draw)

lemma run_increments:
  "filter is_increment (concat (map (iter_events pts) [0..<n]))
     = map Increment (filter (\<lambda>s. of_nat s \<in> set pts) [0..<n])"
  by (simp add: filter_concat_map iter_events_increment concat_map_if)

lemma run_polls:
  "filter is_poll (concat (map (iter_events pts) [0..<n]))
     = map Check_Interrupt (filter (\<lambda>s. s mod 200 = 0) [0..<n])"
  by (simp add: filter_concat_map iter_events_poll concat_map_if)

lemma run_stores:
  assumes "j < n"
  shows "count_list (concat (map (iter_events pts) [0..<n])) (Store_B j) = 1"
    and "count_list (concat (map (iter_events pts) [0..<n])) (Store_A j) = 1"
    and "count_list (concat (map (iter_events pts) [0..<n])) (Store_Hyper j) = 1"
  using assms
  by (simp_all add: count_list_eq_length_filter filter_concat_map iter_events_store
      concat_map_if filter_eq_upt)

lemma pre_events_filters:
  "filter is_increment (pre_events pts n) = (if of_nat n \<in> set pts then [Increment n] else [])"
  "filter is_poll (pre_events pts n) = (if n mod 200 = 0 then [Check_Interrupt n] else [])"
  "filter is_draw (pre_events pts n) = []"
  by (simp_all add: pre_events_def)

subsection \<open>Calls that return, calls that raise\<close>

lemma bsvar_Inr_trace:
  assumes "bsvar smp irq r0 S Y X VB prior sv = (Inr res, tr)"
  shows "tr = concat (map (iter_events (prog_rep_points S)) [0..<nat S])"
proof -
  from assms obtain st where
    loop: "gibbs_loop smp irq (prog_rep_points S) Y X VB prior 0 (nat S)
             (init_state (nat S) Y X sv r0) = Inr st"
    and tr: "tr = trace st"
    by (auto simp: bsvar_Inr)
  show ?thesis
    using gibbs_loop_trace [OF loop] tr by (simp add: init_state_def Let_def)
qed

lemma bsvar_Inr_history:
  assumes "bsvar smp irq r0 S Y X VB prior sv = (Inr res, tr)" and "j < k" and "k \<le> nat S"
  shows "\<exists>m d r. gibbs_loop smp irq (prog_rep_points S) Y X VB prior 0 k
                   (init_state (nat S) Y X sv r0) = Inr m
           \<and> gibbs_chain smp Y X VB prior sv r0 (Suc j) = Some (d, r)
           \<and> holds_draw m j d"
proof -
  from assms(1) obtain st where
    loop: "gibbs_loop smp irq (prog_rep_points S) Y X VB prior 0 (nat S)
             (init_state (nat S) Y X sv r0) = Inr st"
    by (auto simp: bsvar_Inr)
  from gibbs_loop_Inr_prefix [OF loop le0 assms(3)] obtain m where
    m: "gibbs_loop smp irq (prog_rep_points S) Y X VB prior 0 k
          (init_state (nat S) Y X sv r0) = Inr m"
    by blast
  from run_history [OF m] assms(2) show ?thesis using m by blast
qed

lemma loop_body_interrupted:
  "k mod 200 = 0 \<Longrightarrow> irq k \<Longrightarrow>
   loop_body smp irq pts Y X VB prior k m = Inl (Interrupted, trace m @ pre_events pts k)"
  by (simp add: loop_body_def seq_def increment_progress_def check_user_interrupt_def emit_def
      pre_events_def Let_def)

lemma bsvar_Inl_cases:
  assumes "bsvar smp irq r0 S Y X VB prior sv = (Inl e, tr)" and "0 \<le> S"
  shows "\<exists>n m. n < nat S
           \<and> gibbs_loop smp irq (prog_rep_points S) Y X VB prior 0 n
                (init_state (nat S) Y X sv r0) = Inr m
           \<and> loop_body smp irq (prog_rep_points S) Y X VB prior n m = Inl (e, tr)
           \<and> trace m = concat (map (iter_events (prog_rep_points S)) [0..<n])"
proof -
  from assms have "gibbs_loop smp irq (prog_rep_points S) Y X VB prior 0 (nat S)
                     (init_state (nat S) Y X sv r0) = Inl (e, tr)"
    by (simp add: bsvar_Inl)
  from gibbs_loop_Inl [OF this] obtain n m where n: "n < nat S"
    and m: "gibbs_loop smp irq (prog_rep_points S) Y X VB prior 0 n
                (init_state (nat S) Y X sv r0) = Inr m"
    and b: "loop_body smp irq (prog_rep_points S) Y X VB prior n m = Inl (e, tr)"
    by blast
  have "trace m = concat (map (iter_events (prog_rep_points S)) [0..<n])"
    using gibbs_loop_trace [OF m] by (simp add: init_state_def Let_def)
  with n m b show ?thesis by blast
qed

lemma loop_body_Inl_filters:
  assumes "loop_body smp irq pts Y X VB prior n m = Inl (e, tr)"
  shows "filter is_increment tr
           = filter is_increment (trace m) @ (if of_nat n \<in> set pts then [Increment n] else [])"
    and "filter is_poll tr
           = filter is_poll (trace m) @ (if n mod 200 = 0 then [Check_Interrupt n] else [])"
    and "\<exists>zs. filter is_draw tr = filter is_draw (trace m) @ zs \<and> prefix zs (draw_events n)"
proof -
  note c = loop_body_Inl [OF assms]
  from c show "filter is_increment tr
           = filter is_increment (trace m) @ (if of_nat n \<in> set pts then [Increment n] else [])"
    by (elim disjE conjE bexE) (auto simp: pre_events_filters)
  from c show "filter is_poll tr
           = filter is_poll (trace m) @ (if n mod 200 = 0 then [Check_Interrupt n] else [])"
    by (elim disjE conjE bexE) (auto simp: pre_events_filters)
  from c show "\<exists>zs. filter is_draw tr = filter is_draw (trace m) @ zs \<and> prefix zs (draw_events n)"
    by (elim disjE conjE bexE) (auto simp: pre_events_filters draw_events_def)
qed

lemma loop_body_Inl_sampled:
  assumes "loop_body smp irq pts Y X VB prior n m = Inl (e, tr)"
  shows "\<exists>ys. tr = trace m @ ys \<and> (e \<noteq> Interrupted \<longrightarrow> Sample_Hyper n \<in> set ys)"
  using loop_body_Inl [OF assms]
  by (elim disjE conjE bexE) auto

lemma bsvar_draws_prefix:
  assumes "bsvar smp irq r0 S Y X VB prior sv = (out, tr)"
  shows "prefix (filter is_draw tr) (concat (map draw_events [0..<nat S]))"
proof (cases out)
  case (Inr res)
  with assms show ?thesis
    using bsvar_Inr_trace [of smp irq r0 S Y X VB prior sv res tr] by (simp add: run_draws)
next
  case (Inl e)
  show ?thesis
  proof (cases "S < 0")
    case True
    with assms Inl show ?thesis by (auto simp: bsvar_def)
  next
    case False
    with assms Inl bsvar_Inl_cases [of smp irq r0 S Y X VB prior sv e tr]
    obtain n m where n: "n < nat S"
      and b: "loop_body smp irq (prog_rep_points S) Y X VB prior n m = Inl (e, tr)"
      and t: "trace m = concat (map (iter_events (prog_rep_points S)) [0..<n])"
      by auto
    from loop_body_Inl_filters(3) [OF b] obtain zs where
      zs: "filter is_draw tr = concat (map draw_events [0..<n]) @ zs"
      and p: "prefix zs (draw_events n)"
      by (auto simp: t run_draws)
    from n have "[0..<nat S] = [0..<n] @ n # [Suc n..<nat S]"
      using upt_add_eq_append [of 0 n "nat S - n"] by (simp add: upt_conv_Cons)
    then have "concat (map draw_events [0..<nat S])
        = concat (map draw_events [0..<n]) @ draw_events n
          @ concat (map draw_events [Suc n..<nat S])"
      by simp
    with zs p show ?thesis by (simp add: prefix_prefix)
  qed
qed

lemma bsvar_increments:
  assumes "bsvar smp irq r0 S Y X VB prior sv = (out, tr)"
  shows "\<exists>n\<le>nat S. filter is_increment tr
             = map Increment (filter (\<lambda>s. of_nat s \<in> set (prog_rep_points S)) [0..<n])
           \<and> ((\<exists>res. out = Inr res) \<longrightarrow> n = nat S)"
proof (cases out)
  case (Inr res)
  with assms show ?thesis
    using bsvar_Inr_trace [of smp irq r0 S Y X VB prior sv res tr]
    by (auto simp: run_increments)
next
  case (Inl e)
  show ?thesis
  proof (cases "S < 0")
    case True
    with assms Inl show ?thesis by (auto simp: bsvar_def)
  next
    case False
    with assms Inl bsvar_Inl_cases [of smp irq r0 S Y X VB prior sv e tr]
    obtain n m where n: "n < nat S"
      and b: "loop_body smp irq (prog_rep_points S) Y X VB prior n m = Inl (e, tr)"
      and t: "trace m = concat (map (iter_events (prog_rep_points S)) [0..<n])"
      by auto
    have "filter is_increment tr
            = map Increment (filter (\<lambda>s. of_nat s \<in> set (prog_rep_points S)) [0..<Suc n])"
      using loop_body_Inl_filters(1) [OF b] by (simp add: t run_increments)
    with n Inl show ?thesis by (intro exI [of _ "Suc n"]) simp
  qed
qed


lemma length_filter_pts:
  "length (filter (\<lambda>s. rat_of_nat s \<in> set pts) [0..<n]) \<le> length pts"
proof -
  let ?F = "filter (\<lambda>s. rat_of_nat s \<in> set pts) [0..<n]"
  have "distinct ?F" by simp
  then have "length ?F = card (set ?F)"
    by (rule distinct_card [symmetric])
  also have "\<dots> = card (rat_of_nat ` set ?F)"
    by (simp add: card_image inj_on_def)
  also have "\<dots> \<le> card (set pts)"
    by (intro card_mono) auto
  also have "\<dots> \<le> length pts"
    by (rule card_length)
  finally show ?thesis .
qed

lemma mem_filter_event:
  "P ev \<Longrightarrow> ev \<in> set tr \<longleftrightarrow> ev \<in> set (filter P tr)"
  by simp

subsection \<open>Interrupts\<close>




lemma gibbs_loop_Inr_no_irq:
  assumes "gibbs_loop smp irq pts Y X VB prior 0 S st = Inr st'" and "k < S" and "k mod 200 = 0"
  shows "\<not> irq k"
proof -
  from gibbs_loop_Inr_prefix [OF assms(1) le0, of k] assms(2) obtain m where
    "gibbs_loop smp irq pts Y X VB prior k S m = Inr st'" by auto
  with assms(2) obtain m' where "loop_body smp irq pts Y X VB prior k m = Inr m'"
    by (auto simp: gibbs_loop_unfold split: sum.splits)
  with assms(3) show ?thesis by (auto simp: loop_body_Inr_iff)
qed

lemma bsvar_Inr_no_irq:
  assumes "bsvar smp irq r0 S Y X VB prior sv = (Inr res, tr)" and "k < nat S" and "k mod 200 = 0"
  shows "\<not> irq k"
  using assms gibbs_loop_Inr_no_irq by (fastforce simp: bsvar_Inr)

subsection \<open>Calls that are known to return\<close>

lemma slice_assign_Some:
  "cube_shape Q r c n \<Longrightarrow> s < n \<Longrightarrow> n_rows M = r \<Longrightarrow> n_cols M = c
     \<Longrightarrow> \<exists>Q'. slice_assign Q s M = Some Q'"
  by (simp add: slice_assign_def cube_shape_def)

lemma col_assign_Some:
  "mat_shape M r c \<Longrightarrow> j < c \<Longrightarrow> length v = r \<Longrightarrow> \<exists>M'. col_assign M j v = Some M'"
  by (simp add: col_assign_def mat_shape_def)

lemma loop_body_completes:
  assumes reg: "samplers_regular smp" and ok: "buffers_ok N K S m"
    and fit: "draw_fits N K (fst (current m))" and k: "k < S"
    and irq: "\<not> (k mod 200 = 0 \<and> irq k)"
  shows "\<exists>m'. loop_body smp irq pts Y X VB prior k m = Inr m' \<and> draw_fits N K (fst (current m'))"
proof -
  from reg obtain h r1 where
    h: "sample_hyperparameters smp (aux_hyper m) (aux_B m) (aux_A m) VB prior (rng m) = Some (h, r1)"
    and lh: "length h = 5"
    unfolding samplers_regular_def by blast
  from reg obtain a r2 where
    a: "sample_A_homosk1 smp (aux_A m) (aux_B m) h Y X prior r1 = Some (a, r2)"
    and da: "n_rows a = n_rows (aux_A m)" "n_cols a = n_cols (aux_A m)"
    unfolding samplers_regular_def by blast
  from reg obtain b r3 where
    b: "sample_B_homosk1 smp (aux_B m) a h Y X prior VB r2 = Some (b, r3)"
    and db: "n_rows b = n_rows (aux_B m)" "n_cols b = n_cols (aux_B m)"
    unfolding samplers_regular_def by blast
  from fit have f: "n_rows (aux_B m) = N" "n_cols (aux_B m) = N"
    "n_rows (aux_A m) = N" "n_cols (aux_A m) = K"
    by (simp_all add: draw_fits_def current_def)
  from ok have sh: "cube_shape (posterior_B m) N N S" "cube_shape (posterior_A m) N K S"
    "mat_shape (posterior_hyper m) 5 S"
    by (simp_all add: buffers_ok_def)
  obtain QB where QB: "slice_assign (posterior_B m) k b = Some QB"
    using slice_assign_Some [OF sh(1) k] db f by auto
  obtain QA where QA: "slice_assign (posterior_A m) k a = Some QA"
    using slice_assign_Some [OF sh(2) k] da f by auto
  obtain MH where MH: "col_assign (posterior_hyper m) k h = Some MH"
    using col_assign_Some [OF sh(3) k lh] by auto
  let ?m' = "\<lparr>aux_B = b, aux_A = a, aux_hyper = h, posterior_B = QB, posterior_A = QA,
              posterior_hyper = MH, rng = r3, trace = trace m @ iter_events pts k\<rparr>"
  have "loop_body smp irq pts Y X VB prior k m = Inr ?m'"
    unfolding loop_body_Inr_iff using h a b QB QA MH irq by blast
  moreover have "draw_fits N K (fst (current ?m'))"
    using da db f by (simp add: draw_fits_def current_def)
  ultimately show ?thesis by blast
qed

lemma gibbs_loop_completes:
  assumes reg: "samplers_regular smp" and fit: "draw_fits (n_rows Y) (n_rows X) sv"
  shows "n \<le> S \<Longrightarrow> (\<forall>k<n. k mod 200 = 0 \<longrightarrow> \<not> irq k) \<Longrightarrow>
         \<exists>m. gibbs_loop smp irq pts Y X VB prior 0 n (init_state S Y X sv r0) = Inr m
            \<and> draw_fits (n_rows Y) (n_rows X) (fst (current m))"
proof (induction n)
  case 0
  show ?case using fit by (simp add: gibbs_loop_done current_init)
next
  case (Suc n)
  then obtain m where m: "gibbs_loop smp irq pts Y X VB prior 0 n (init_state S Y X sv r0) = Inr m"
    and fm: "draw_fits (n_rows Y) (n_rows X) (fst (current m))"
    by auto
  have ok: "buffers_ok (n_rows Y) (n_rows X) S m"
    using run_history [OF m] by simp
  from Suc.prems have "n < S" and "\<not> (n mod 200 = 0 \<and> irq n)" by auto
  from loop_body_completes [where irq = irq and k = n, OF reg ok fm this] obtain m' where
    "loop_body smp irq pts Y X VB prior n m = Inr m'"
    and "draw_fits (n_rows Y) (n_rows X) (fst (current m'))"
    by blast
  with m show ?case by (simp add: gibbs_loop_snoc)
qed

lemma bsvar_completes:
  assumes "samplers_regular smp" and "draw_fits (n_rows Y) (n_rows X) sv" and "0 \<le> S"
    and "\<forall>k<nat S. k mod 200 = 0 \<longrightarrow> \<not> irq k"
  shows "\<exists>res tr. bsvar smp irq r0 S Y X VB prior sv = (Inr res, tr)"
  using gibbs_loop_completes [OF assms(1,2) order_refl assms(4), of "prog_rep_points S" VB prior r0]
    assms(3)
  by (auto simp: bsvar_Inr)

subsection \<open>Positive hyperparameters along the chain\<close>

lemma gibbs_cycle_positive:
  assumes "hyper_sampler_positive smp" and "gibbs_cycle smp Y X VB prior x = Some (d, r)"
  shows "\<forall>v \<in> set (draw_hyper d). 0 < v"
proof -
  obtain d0 r0 where x: "x = (d0, r0)" by (cases x)
  from assms(2) obtain h r1 where
    h: "sample_hyperparameters smp (draw_hyper d0) (draw_B d0) (draw_A d0) VB prior r0 = Some (h, r1)"
    and "draw_hyper d = h"
    unfolding x gibbs_cycle_def by (auto split: option.splits)
  with assms(1) show ?thesis
    unfolding hyper_sampler_positive_def by blast
qed

lemma gibbs_chain_positive:
  assumes "hyper_sampler_positive smp"
    and "gibbs_chain smp Y X VB prior sv r0 (Suc n) = Some (d, r)"
  shows "\<forall>v \<in> set (draw_hyper d). 0 < v"
  using assms gibbs_cycle_positive [OF assms(1)]
  by (auto split: option.splits)

subsection \<open>Further concrete runs\<close>

lemma ex_run_no_irq:
  "bsvar smp_ex no_irq 0 2 Y_ex X_ex VB_ex prior_ex start_ex = (Inr res_ex, trace_ex)"
  by (rule ex_run) (simp add: no_irq_def)

lemma ex_pts_one: "0 \<in> set (prog_rep_points 1)"
  unfolding prog_rep_points_mem by (rule exI [of _ 0]) (simp add: round_half_away_def floor_eq_iff)

lemma nat_1: "nat 1 = Suc 0" by simp

lemma ex_run_mismatch_T:
  "bsvar smp_ex no_irq 0 1 Y_ex X_bad VB_ex prior_ex start_ex = (Inr res_one, trace_one)"
  unfolding bsvar_def nat_1
  by (simp add: gibbs_loop_unfold gibbs_loop_done loop_body_def seq_def stmt_defs ex_pts_one
      Let_def init_state_def smp_ex_def slice_assign_def col_assign_def new_cube_def new_mat_def
      Y_ex_def X_bad_def start_ex_def make_result_def res_one_def trace_one_def replicate_numeral
      no_irq_def)

lemma ex_run_mismatch_B:
  "bsvar smp_ex no_irq 0 1 Y_ex X_ex VB_ex prior_ex start_bad = (Inl Size_Mismatch, trace_bad)"
  unfolding bsvar_def nat_1
  by (simp add: gibbs_loop_unfold gibbs_loop_done loop_body_def seq_def stmt_defs ex_pts_one
      Let_def init_state_def smp_ex_def slice_assign_def col_assign_def new_cube_def new_mat_def
      Y_ex_def X_ex_def start_bad_def trace_bad_def replicate_numeral no_irq_def)

lemma smp_ex_regular: "samplers_regular smp_ex"
  by (simp add: samplers_regular_def smp_ex_def)

lemma smp_ex_positive: "hyper_sampler_positive smp_ex"
  by (simp add: hyper_sampler_positive_def smp_ex_def)

lemma start_ex_fits: "draw_fits (n_rows Y_ex) (n_rows X_ex) start_ex"
  by (simp add: draw_fits_def Y_ex_def X_ex_def start_ex_def)

lemma ex_run_interrupted:
  "fst (bsvar smp_ex (irq_at 200) 0 201 Y_ex X_ex VB_ex prior_ex start_ex) = Inl Interrupted"
proof -
  have "\<forall>k<200. k mod 200 = 0 \<longrightarrow> \<not> irq_at 200 k"
    by (simp add: irq_at_def)
  from gibbs_loop_completes [OF smp_ex_regular start_ex_fits _ this, of 201 "prog_rep_points 201"
      VB_ex prior_ex 0]
  obtain m where m: "gibbs_loop smp_ex (irq_at 200) (prog_rep_points 201) Y_ex X_ex VB_ex prior_ex
      0 200 (init_state 201 Y_ex X_ex start_ex 0) = Inr m"
    by auto
  have "loop_body smp_ex (irq_at 200) (prog_rep_points 201) Y_ex X_ex VB_ex prior_ex 200 m
      = Inl (Interrupted, trace m @ pre_events (prog_rep_points 201) 200)"
    by (rule loop_body_interrupted) (simp_all add: irq_at_def)
  moreover have "gibbs_loop smp_ex (irq_at 200) (prog_rep_points 201) Y_ex X_ex VB_ex prior_ex
      0 (Suc 200) (init_state 201 Y_ex X_ex start_ex 0)
      = (case gibbs_loop smp_ex (irq_at 200) (prog_rep_points 201) Y_ex X_ex VB_ex prior_ex
                0 200 (init_state 201 Y_ex X_ex start_ex 0) of
           Inl x \<Rightarrow> Inl x
         | Inr m \<Rightarrow> loop_body smp_ex (irq_at 200) (prog_rep_points 201) Y_ex X_ex VB_ex
                      prior_ex 200 m)"
    by (rule gibbs_loop_snoc) simp
  ultimately have "gibbs_loop smp_ex (irq_at 200) (prog_rep_points 201) Y_ex X_ex VB_ex prior_ex
      0 201 (init_state 201 Y_ex X_ex start_ex 0)
      = Inl (Interrupted, trace m @ pre_events (prog_rep_points 201) 200)"
    using m by simp
  then show ?thesis
    unfolding bsvar_def by simp
qed

lemma conj3: "A \<Longrightarrow> B \<Longrightarrow> C \<Longrightarrow> A \<and> B \<and> C"
  by simp

lemma conj4: "A \<Longrightarrow> B \<Longrightarrow> C \<Longrightarrow> D \<Longrightarrow> A \<and> B \<and> C \<and> D"
  by simp

subsection \<open>Order of the samplers\<close>

text \<open>
  Claim C2. In every iteration the samplers are called in the fixed order
  hyperparameters, \<open>A\<close>, \<open>B\<close>, and only then the triple is copied into slice \<open>s\<close> of the
  histories: the sampling and copying actions of any call are an initial part of
  \<open>Sample_Hyper s, Sample_A s, Sample_B s, Store_B s, Store_A s, Store_Hyper s\<close> for
  \<open>s = 0, ..., S - 1\<close>, and the whole of it when the call returns. Each sampler reads
  what the earlier ones have just drawn: slice \<open>s\<close> of the returned histories is the
  triple after \<open>s + 1\<close> cycles of the chain of the specification.
\<close>

theorem gibbs_order:
  assumes "bsvar smp irq r0 S Y X VB prior sv = (out, tr)"
  shows "prefix (filter is_draw tr)
           (concat (map (\<lambda>s. [Sample_Hyper s, Sample_A s, Sample_B s,
                               Store_B s, Store_A s, Store_Hyper s]) [0..<nat S]))
       \<and> (\<forall>res. out = Inr res \<longrightarrow>
            filter is_draw tr =
              concat (map (\<lambda>s. [Sample_Hyper s, Sample_A s, Sample_B s,
                                Store_B s, Store_A s, Store_Hyper s]) [0..<nat S])
            \<and> (\<forall>s<nat S. \<exists>d r. gibbs_chain smp Y X VB prior sv r0 (Suc s) = Some (d, r)
                  \<and> slices (post_B (posterior res)) ! s = draw_B d
                  \<and> slices (post_A (posterior res)) ! s = draw_A d
                  \<and> col (post_hyper (posterior res)) s = draw_hyper d))"
proof -
  have ev: "draw_events = (\<lambda>s. [Sample_Hyper s, Sample_A s, Sample_B s,
                             Store_B s, Store_A s, Store_Hyper s])"
    by (simp add: fun_eq_iff draw_events_def)
  have "filter is_draw tr = concat (map draw_events [0..<nat S])
      \<and> (\<forall>s<nat S. \<exists>d r. gibbs_chain smp Y X VB prior sv r0 (Suc s) = Some (d, r)
             \<and> slices (post_B (posterior res)) ! s = draw_B d
             \<and> slices (post_A (posterior res)) ! s = draw_A d
             \<and> col (post_hyper (posterior res)) s = draw_hyper d)"
    if out: "out = Inr res" for res
  proof -
    from assms out obtain st where
      loop: "gibbs_loop smp irq (prog_rep_points S) Y X VB prior 0 (nat S)
               (init_state (nat S) Y X sv r0) = Inr st"
      and res: "res = make_result st"
      by (auto simp: bsvar_Inr)
    have "filter is_draw tr = concat (map draw_events [0..<nat S])"
      using bsvar_Inr_trace [of smp irq r0 S Y X VB prior sv res tr] assms out
      by (simp add: run_draws)
    moreover have "\<forall>s<nat S. \<exists>d r. gibbs_chain smp Y X VB prior sv r0 (Suc s) = Some (d, r)
               \<and> holds_draw st s d"
      using run_history [OF loop] by blast
    ultimately show ?thesis
      unfolding res by (simp add: make_result_def holds_draw_def)
  qed
  with bsvar_draws_prefix [OF assms] show ?thesis
    unfolding ev by blast
qed

theorem gibbs_order_witness:
  "bsvar smp_ex no_irq 0 2 Y_ex X_ex VB_ex prior_ex start_ex = (Inr res_ex, trace_ex)
   \<and> prefix (filter is_draw trace_ex)
           (concat (map (\<lambda>s. [Sample_Hyper s, Sample_A s, Sample_B s,
                               Store_B s, Store_A s, Store_Hyper s]) [0..<nat 2]))
   \<and> filter is_draw trace_ex =
           concat (map (\<lambda>s. [Sample_Hyper s, Sample_A s, Sample_B s,
                             Store_B s, Store_A s, Store_Hyper s]) [0..<nat 2])
   \<and> (\<exists>d r. gibbs_chain smp_ex Y_ex X_ex VB_ex prior_ex start_ex 0 (Suc 1) = Some (d, r)
         \<and> slices (post_B (posterior res_ex)) ! 1 = draw_B d
         \<and> slices (post_A (posterior res_ex)) ! 1 = draw_A d
         \<and> col (post_hyper (posterior res_ex)) 1 = draw_hyper d)"
proof -
  note t = gibbs_order [OF ex_run_no_irq]
  note q = t [THEN conjunct2, rule_format, OF refl]
  have lt: "1 < nat 2" by simp
  from ex_run_no_irq t [THEN conjunct1] q [THEN conjunct1]
    q [THEN conjunct2, rule_format, OF lt]
  show ?thesis by (rule conj4)
qed

subsection \<open>No validation of dimensions\<close>

text \<open>
  Claim C3 says that the dimensions of \<open>Y\<close>, \<open>X\<close>, \<open>A\<close>, \<open>B\<close>, \<open>VB\<close> and the prior are
  validated before the loop and that a mismatch is an error raised before any draw.
  \<open>bsvar\<close> has no such check. With five observations in \<open>X\<close> and three in \<open>Y\<close> the call
  samples and returns; with a \<open>2 x 2\<close> starting value of \<open>B\<close> where \<open>N = 1\<close> the
  three samplers are called and the error comes from the copy of line 128.
\<close>

theorem dimension_validation_counterexample:
  "n_cols Y_ex \<noteq> n_cols X_bad
   \<and> bsvar smp_ex no_irq 0 1 Y_ex X_bad VB_ex prior_ex start_ex = (Inr res_one, trace_one)
   \<and> n_rows (draw_B start_bad) \<noteq> n_rows Y_ex
   \<and> bsvar smp_ex no_irq 0 1 Y_ex X_ex VB_ex prior_ex start_bad = (Inl Size_Mismatch, trace_bad)
   \<and> Sample_B 0 \<in> set trace_bad"
proof -
  have "n_cols Y_ex \<noteq> n_cols X_bad"
    by (simp add: Y_ex_def X_bad_def)
  moreover have "n_rows (draw_B start_bad) \<noteq> n_rows Y_ex"
    by (simp add: Y_ex_def start_bad_def)
  moreover have "Sample_B 0 \<in> set trace_bad"
    by (simp add: trace_bad_def)
  ultimately show ?thesis
    using ex_run_mismatch_T ex_run_mismatch_B by simp
qed

text \<open>
  Claim C3, amended. \<open>bsvar\<close> does not compare the dimensions of its inputs. With
  \<open>S > 0\<close> and no interrupt pending at the first poll the hyperparameter sampler is
  called on the inputs as they are. The only dimension error of \<open>bsvar\<close> itself is the
  size mismatch of a copy into the histories (line 128, 129 or 130) in some iteration
  \<open>n < S\<close>, raised after the three samplers of that iteration have been called.
\<close>

theorem no_dimension_validation:
  assumes "bsvar smp irq r0 S Y X VB prior sv = (out, tr)" and "0 < S" and "\<not> irq 0"
  shows "Sample_Hyper 0 \<in> set tr
       \<and> (out = Inl Size_Mismatch \<longrightarrow>
            (\<exists>n<nat S. \<exists>pre zs. tr = pre @ [Sample_Hyper n, Sample_A n, Sample_B n] @ zs
               \<and> zs \<in> {[Store_B n], [Store_B n, Store_A n],
                        [Store_B n, Store_A n, Store_Hyper n]}))"
proof (cases out)
  case (Inr res)
  from assms(2) have "[0..<nat S] = 0 # [Suc 0..<nat S]"
    by (simp add: upt_conv_Cons)
  then have "Sample_Hyper 0 \<in> set (concat (map (iter_events (prog_rep_points S)) [0..<nat S]))"
    by (simp add: iter_events_def)
  with Inr assms(1) show ?thesis
    using bsvar_Inr_trace [of smp irq r0 S Y X VB prior sv res tr] by simp
next
  case (Inl e)
  with assms bsvar_Inl_cases [of smp irq r0 S Y X VB prior sv e tr]
  obtain n m where n: "n < nat S"
    and m: "gibbs_loop smp irq (prog_rep_points S) Y X VB prior 0 n
                (init_state (nat S) Y X sv r0) = Inr m"
    and b: "loop_body smp irq (prog_rep_points S) Y X VB prior n m = Inl (e, tr)"
    and t: "trace m = concat (map (iter_events (prog_rep_points S)) [0..<n])"
    by auto
  from loop_body_Inl_sampled [OF b] obtain ys where
    ys: "tr = trace m @ ys" "e \<noteq> Interrupted \<longrightarrow> Sample_Hyper n \<in> set ys"
    by blast
  have first: "Sample_Hyper 0 \<in> set tr"
  proof (cases n)
    case 0
    with b assms(3) have "e \<noteq> Interrupted"
      using loop_body_Inl [OF b] by auto
    with ys 0 show ?thesis by simp
  next
    case (Suc n')
    then have "[0..<n] = 0 # [Suc 0..<n]" by (simp add: upt_conv_Cons)
    then have "Sample_Hyper 0 \<in> set (trace m)"
      unfolding t by (simp add: iter_events_def)
    with ys show ?thesis by simp
  qed
  have "\<exists>pre zs. tr = pre @ [Sample_Hyper n, Sample_A n, Sample_B n] @ zs
               \<and> zs \<in> {[Store_B n], [Store_B n, Store_A n],
                        [Store_B n, Store_A n, Store_Hyper n]}"
    if "e = Size_Mismatch"
  proof -
    from loop_body_Inl [OF b] that obtain zs where
      "zs \<in> {[Store_B n], [Store_B n, Store_A n], [Store_B n, Store_A n, Store_Hyper n]}"
      and "tr = trace m @ pre_events (prog_rep_points S) n
                 @ [Sample_Hyper n, Sample_A n, Sample_B n] @ zs"
      by auto
    then have "tr = (trace m @ pre_events (prog_rep_points S) n)
                 @ [Sample_Hyper n, Sample_A n, Sample_B n] @ zs
             \<and> zs \<in> {[Store_B n], [Store_B n, Store_A n], [Store_B n, Store_A n, Store_Hyper n]}"
      by simp
    then show ?thesis by blast
  qed
  with first n Inl show ?thesis by blast
qed

theorem no_dimension_validation_witness:
  "bsvar smp_ex no_irq 0 1 Y_ex X_ex VB_ex prior_ex start_bad = (Inl Size_Mismatch, trace_bad)
   \<and> (0::int) < 1 \<and> \<not> no_irq 0
   \<and> Sample_Hyper 0 \<in> set trace_bad
   \<and> (\<exists>n<nat 1. \<exists>pre zs. trace_bad = pre @ [Sample_Hyper n, Sample_A n, Sample_B n] @ zs
         \<and> zs \<in> {[Store_B n], [Store_B n, Store_A n], [Store_B n, Store_A n, Store_Hyper n]})"
proof -
  have pos: "(0::int) < 1" by simp
  have irq: "\<not> no_irq 0" by (simp add: no_irq_def)
  from no_dimension_validation [OF ex_run_mismatch_B pos irq]
  show ?thesis using ex_run_mismatch_B pos irq by simp
qed

subsection \<open>Cancellation\<close>

text \<open>
  Claim C4 says that a cancellation requested during iteration \<open>k\<close>, \<open>0 < k < S\<close>, ends
  the call early without a failure, with a partial result of exactly \<open>k\<close> slices.
  Requested during iteration 200 of 201, the call ends with the interrupt raised by
  \<open>checkUserInterrupt\<close> and returns nothing; requested during iteration 1 of 2, it is
  never polled and the call returns both slices.
\<close>

theorem cancellation_counterexample:
  "fst (bsvar smp_ex (irq_at 200) 0 201 Y_ex X_ex VB_ex prior_ex start_ex) = Inl Interrupted
   \<and> irq_at 1 1
   \<and> bsvar smp_ex (irq_at 1) 0 2 Y_ex X_ex VB_ex prior_ex start_ex = (Inr res_ex, trace_ex)
   \<and> n_slices (post_B (posterior res_ex)) = 2"
  by (simp add: ex_run_interrupted ex_run irq_at_def res_ex_def)

text \<open>
  Claim C4, amended. When an interrupt is pending at a polled iteration \<open>k < S\<close>
  (\<open>k mod 200 = 0\<close>), the call raises and returns no result, neither the full nor a
  partial history: it ends with the interrupt, unless it has already ended with another
  error before the poll of iteration \<open>k\<close>.
\<close>

theorem interrupt_aborts:
  assumes "k < nat S" and "k mod 200 = 0" and "irq k"
  shows "\<exists>e tr. bsvar smp irq r0 S Y X VB prior sv = (Inl e, tr)
           \<and> (e = Interrupted \<or> Check_Interrupt k \<notin> set tr)"
proof -
  obtain out tr where run: "bsvar smp irq r0 S Y X VB prior sv = (out, tr)"
    by (cases "bsvar smp irq r0 S Y X VB prior sv")
  show ?thesis
  proof (cases out)
    case (Inr res)
    with run assms bsvar_Inr_no_irq [of smp irq r0 S Y X VB prior sv res tr k]
    show ?thesis by simp
  next
    case (Inl e)
    from assms(1) have "0 \<le> S" by simp
    with run Inl bsvar_Inl_cases [of smp irq r0 S Y X VB prior sv e tr]
    obtain n m where n: "n < nat S"
      and m: "gibbs_loop smp irq (prog_rep_points S) Y X VB prior 0 n
                (init_state (nat S) Y X sv r0) = Inr m"
      and b: "loop_body smp irq (prog_rep_points S) Y X VB prior n m = Inl (e, tr)"
      by auto
    have "e = Interrupted" if "Check_Interrupt k \<in> set tr"
    proof -
      have "Check_Interrupt k \<in> set (filter is_poll tr)" using that by simp
      then have "Check_Interrupt k \<in> set (filter is_poll (trace m)) \<or> k = n"
        unfolding loop_body_Inl_filters(2) [OF b] by (auto split: if_splits)
      moreover have "Check_Interrupt k \<notin> set (filter is_poll (trace m))"
      proof
        assume "Check_Interrupt k \<in> set (filter is_poll (trace m))"
        then have "k < n"
          using gibbs_loop_trace [OF m] by (auto simp: init_state_def Let_def run_polls)
        with gibbs_loop_Inr_no_irq [OF m this assms(2)] assms(3) show False by simp
      qed
      ultimately have "k = n" by simp
      with b loop_body_interrupted [where irq = irq and k = k and smp = smp
          and pts = "prog_rep_points S" and Y = Y and X = X and VB = VB and prior = prior
          and m = m, OF assms(2,3)]
      show ?thesis by simp
    qed
    with run Inl show ?thesis by blast
  qed
qed

theorem interrupt_aborts_witness:
  "0 < nat 2 \<and> (0::nat) mod 200 = 0 \<and> irq_at 0 0
   \<and> (\<exists>e tr. bsvar smp_ex (irq_at 0) 0 2 Y_ex X_ex VB_ex prior_ex start_ex = (Inl e, tr)
         \<and> (e = Interrupted \<or> Check_Interrupt 0 \<notin> set tr))"
proof -
  have a: "0 < nat 2" by simp
  have b: "(0::nat) mod 200 = 0" by simp
  have c: "irq_at 0 0" by (simp add: irq_at_def)
  from a b c interrupt_aborts [where irq = "irq_at 0" and k = 0, OF a b c]
  show ?thesis by (rule conj4)
qed

subsection \<open>Progress\<close>

text \<open>
  Claim C5. The progress bar is incremented at most 50 times in a call, whatever \<open>S\<close>
  is, and only in iterations \<open>s < S\<close> that are one of the 50 evenly spaced points
  \<open>i * S / 49\<close>, \<open>i = 0, ..., 49\<close>, rounded to the nearest integer; when the call
  returns, it has been incremented in every such iteration.
\<close>

theorem progress_emissions:
  assumes "bsvar smp irq r0 S Y X VB prior sv = (out, tr)"
  shows "length (filter is_increment tr) \<le> 50
       \<and> (\<forall>s. Increment s \<in> set tr \<longrightarrow>
             s < nat S \<and> (\<exists>i<50. of_nat s = round_half_away (of_nat i * of_int S / 49)))
       \<and> (\<forall>res. out = Inr res \<longrightarrow>
            (\<forall>s<nat S. (\<exists>i<50. of_nat s = round_half_away (of_nat i * of_int S / 49))
               \<longrightarrow> Increment s \<in> set tr))"
proof -
  from bsvar_increments [OF assms] obtain n where n: "n \<le> nat S"
    and f: "filter is_increment tr
             = map Increment (filter (\<lambda>s. of_nat s \<in> set (prog_rep_points S)) [0..<n])"
    and c: "(\<exists>res. out = Inr res) \<longrightarrow> n = nat S"
    by blast
  have mem: "Increment s \<in> set tr \<longleftrightarrow> s < n \<and> of_nat s \<in> set (prog_rep_points S)" for s
    using mem_filter_event [of is_increment "Increment s" tr] unfolding f by auto
  have "length (filter is_increment tr) \<le> length (prog_rep_points S)"
    unfolding f using length_filter_pts [of "prog_rep_points S" n] by simp
  also have "length (prog_rep_points S) = 50"
    by (simp add: prog_rep_points_eq del: upt_rec_numeral)
  finally have "length (filter is_increment tr) \<le> 50" .
  then show ?thesis
    using n c unfolding mem prog_rep_points_mem by auto
qed

theorem progress_emissions_witness:
  "bsvar smp_ex no_irq 0 2 Y_ex X_ex VB_ex prior_ex start_ex = (Inr res_ex, trace_ex)
   \<and> length (filter is_increment trace_ex) \<le> 50
   \<and> Increment 1 \<in> set trace_ex
   \<and> 1 < nat 2 \<and> (\<exists>i<50. of_nat 1 = round_half_away (of_nat i * of_int 2 / 49))"
proof -
  note t = progress_emissions [OF ex_run_no_irq]
  have mem: "Increment 1 \<in> set trace_ex" by (simp add: trace_ex_def)
  from ex_run_no_irq t [THEN conjunct1] mem
    t [THEN conjunct2, THEN conjunct1, rule_format, OF mem]
  show ?thesis by (rule conj4)
qed

subsection \<open>Polling for interrupts\<close>



subsection \<open>Positive hyperparameters in the history\<close>

text \<open>
  Claim C8. If the hyperparameter sampler only returns strictly positive entries, then
  every entry of every column \<open>s < S\<close> of the returned history of \<open>hyper\<close> is strictly
  positive (the starting values, which need not be positive, are never recorded).
\<close>

theorem hyper_history_positive:
  assumes "hyper_sampler_positive smp"
    and "bsvar smp irq r0 S Y X VB prior sv = (Inr res, tr)"
    and "s < nat S"
  shows "\<forall>v \<in> set (col (post_hyper (posterior res)) s). 0 < v"
proof -
  from bsvar_Inr_history [OF assms(2,3) order_refl] obtain st d r where
    st: "gibbs_loop smp irq (prog_rep_points S) Y X VB prior 0 (nat S)
          (init_state (nat S) Y X sv r0) = Inr st"
    and d: "gibbs_chain smp Y X VB prior sv r0 (Suc s) = Some (d, r)"
    and h: "holds_draw st s d"
    by blast
  from assms(2) st have "res = make_result st" by (simp add: bsvar_Inr)
  with h have "col (post_hyper (posterior res)) s = draw_hyper d"
    by (simp add: holds_draw_def make_result_def)
  with gibbs_chain_positive [OF assms(1) d] show ?thesis by simp
qed

theorem hyper_history_positive_witness:
  "hyper_sampler_positive smp_ex
   \<and> bsvar smp_ex no_irq 0 2 Y_ex X_ex VB_ex prior_ex start_ex = (Inr res_ex, trace_ex)
   \<and> 1 < nat 2
   \<and> list_all (\<lambda>v. 0 < v) (col (post_hyper (posterior res_ex)) 1)"
proof -
  have lt: "1 < nat 2" by simp
  note t = hyper_history_positive [OF smp_ex_positive ex_run_no_irq lt]
  from smp_ex_positive ex_run_no_irq lt t [folded list_all_iff]
  show ?thesis by (rule conj4)
qed

subsection \<open>Histories are written once\<close>

text \<open>
  Claim C9. The histories are append-only. For a call that returns and \<open>j < k \<le> S\<close>:
  after \<open>k\<close> iterations the three buffers hold at index \<open>j\<close> the triple drawn in
  iteration \<open>j\<close> (the triple after \<open>j + 1\<close> cycles of the chain), the returned histories
  hold the same triple there, and each of the three copy statements has been executed
  exactly once for index \<open>j\<close> in the whole call.
\<close>

theorem history_append_only:
  assumes "bsvar smp irq r0 S Y X VB prior sv = (Inr res, tr)" and "j < k" and "k \<le> nat S"
  shows "\<exists>m d r. gibbs_loop smp irq (prog_rep_points S) Y X VB prior 0 k
                   (init_state (nat S) Y X sv r0) = Inr m
           \<and> gibbs_chain smp Y X VB prior sv r0 (Suc j) = Some (d, r)
           \<and> slices (posterior_B m) ! j = draw_B d
           \<and> slices (posterior_A m) ! j = draw_A d
           \<and> col (posterior_hyper m) j = draw_hyper d
           \<and> slices (post_B (posterior res)) ! j = draw_B d
           \<and> slices (post_A (posterior res)) ! j = draw_A d
           \<and> col (post_hyper (posterior res)) j = draw_hyper d
           \<and> count_list tr (Store_B j) = 1
           \<and> count_list tr (Store_A j) = 1
           \<and> count_list tr (Store_Hyper j) = 1"
proof -
  from assms have jS: "j < nat S" by simp
  from bsvar_Inr_history [OF assms] obtain m d r where
    m: "gibbs_loop smp irq (prog_rep_points S) Y X VB prior 0 k
          (init_state (nat S) Y X sv r0) = Inr m"
    and d: "gibbs_chain smp Y X VB prior sv r0 (Suc j) = Some (d, r)"
    and hm: "holds_draw m j d"
    by blast
  from bsvar_Inr_history [OF assms(1) jS order_refl] obtain st d' r' where
    st: "gibbs_loop smp irq (prog_rep_points S) Y X VB prior 0 (nat S)
          (init_state (nat S) Y X sv r0) = Inr st"
    and d': "gibbs_chain smp Y X VB prior sv r0 (Suc j) = Some (d', r')"
    and hst: "holds_draw st j d'"
    by blast
  from d d' have "d' = d" by (simp del: gibbs_chain.simps)
  moreover from assms(1) st have "res = make_result st" by (simp add: bsvar_Inr)
  moreover note run_stores [OF jS, of "prog_rep_points S"] bsvar_Inr_trace [OF assms(1)]
  ultimately show ?thesis
    using m d hm hst by (auto simp: holds_draw_def make_result_def)
qed

theorem history_append_only_witness:
  "bsvar smp_ex no_irq 0 2 Y_ex X_ex VB_ex prior_ex start_ex = (Inr res_ex, trace_ex)
   \<and> (0::nat) < 2 \<and> 2 \<le> nat 2
   \<and> (\<exists>m d r. gibbs_loop smp_ex no_irq (prog_rep_points 2) Y_ex X_ex VB_ex prior_ex 0 2
                   (init_state (nat 2) Y_ex X_ex start_ex 0) = Inr m
           \<and> gibbs_chain smp_ex Y_ex X_ex VB_ex prior_ex start_ex 0 (Suc 0) = Some (d, r)
           \<and> slices (posterior_B m) ! 0 = draw_B d
           \<and> slices (posterior_A m) ! 0 = draw_A d
           \<and> col (posterior_hyper m) 0 = draw_hyper d
           \<and> slices (post_B (posterior res_ex)) ! 0 = draw_B d
           \<and> slices (post_A (posterior res_ex)) ! 0 = draw_A d
           \<and> col (post_hyper (posterior res_ex)) 0 = draw_hyper d
           \<and> count_list trace_ex (Store_B 0) = 1
           \<and> count_list trace_ex (Store_A 0) = 1
           \<and> count_list trace_ex (Store_Hyper 0) = 1)"
proof -
  have a: "(0::nat) < 2" by simp
  have b: "2 \<le> nat 2" by simp
  from ex_run_no_irq a b history_append_only [OF ex_run_no_irq a b]
  show ?thesis by (rule conj4)
qed

end
